theory Spec2Isabelle
  imports Main "HOL-Library.Sublist" "HOL-Library.List_Lexorder"
begin

section \<open>Python strings\<close>

text \<open>
  A Python \<open>str\<close> is a sequence of Unicode code points, and \<open>len\<close>, slicing, \<open>find\<close>
  and comparison all count code points. A code point is a natural number here and a string
  is a list of them; the order on strings is the lexicographic order of the code points
  (theory \<open>List_Lexorder\<close>), which is how Python compares two strings. ASCII literals of
  the script are written with \<open>ascii\<close>.
\<close>

type_synonym codepoint = nat
type_synonym pystr = "codepoint list"

definition ascii :: "string \<Rightarrow> pystr" where
  "ascii s = map of_char s"

definition LF :: codepoint where "LF = 10"
definition CR :: codepoint where "CR = 13"
definition TAB :: codepoint where "TAB = 9"
definition SP :: codepoint where "SP = 32"

text \<open>
  \<open>str.isspace\<close> on one code point, which is the test \<open>str.strip\<close> and \<open>str.lstrip\<close>
  use when called without an argument: U+0009..U+000D, U+001C..U+0020, U+0085, U+00A0,
  U+1680, U+2000..U+200A, U+2028, U+2029, U+202F, U+205F and U+3000.
\<close>

definition isspace :: "codepoint \<Rightarrow> bool" where
  "isspace c \<longleftrightarrow>
     (9 \<le> c \<and> c \<le> 13) \<or> (28 \<le> c \<and> c \<le> 32) \<or> c = 133 \<or> c = 160 \<or> c = 5760 \<or>
     (8192 \<le> c \<and> c \<le> 8202) \<or> c = 8232 \<or> c = 8233 \<or> c = 8239 \<or> c = 8287 \<or> c = 12288"

definition lstrip :: "pystr \<Rightarrow> pystr" where
  "lstrip s = dropWhile isspace s"

definition rstrip :: "pystr \<Rightarrow> pystr" where
  "rstrip s = rev (dropWhile isspace (rev s))"

definition strip :: "pystr \<Rightarrow> pystr" where
  "strip s = rstrip (lstrip s)"

text \<open>
  \<open>s.replace(old, new)\<close>: the occurrences of \<open>old\<close> are found from the left and do not
  overlap. With an empty \<open>old\<close> Python puts \<open>new\<close> before every code point and at the end.
\<close>

function replace_from :: "pystr \<Rightarrow> pystr \<Rightarrow> pystr \<Rightarrow> pystr" where
  "replace_from old new [] = []"
| "replace_from old new (c # cs) =
     (if old \<noteq> [] \<and> prefix old (c # cs)
      then new @ replace_from old new (drop (length old) (c # cs))
      else c # replace_from old new cs)"
  by pat_completeness auto
termination
  by (relation "measure (\<lambda>(old, new, s). length s)") auto

definition replace :: "pystr \<Rightarrow> pystr \<Rightarrow> pystr \<Rightarrow> pystr" where
  "replace s old new =
     (if old = [] then new @ concat (map (\<lambda>c. c # new) s) else replace_from old new s)"

text \<open>
  \<open>re.sub(p, repl, s)\<close> for a pattern \<open>p\<close> that is a greedy repetition of one character
  class, at least \<open>n\<close> times with \<open>1 \<le> n\<close> (\<open>[ \t]+\<close> is the class of space and tab
  with \<open>n = 1\<close>, \<open>\n{3,}\<close> the class of the line feed with \<open>n = 3\<close>), and a replacement
  without group references. The scan goes from the left: where the longest run of the
  class that starts at the position has at least \<open>n\<close> code points it is the match, the
  replacement is emitted and the scan goes on behind the run; elsewhere the code point is
  copied and the scan moves one position.
\<close>

function re_sub_run :: "(codepoint \<Rightarrow> bool) \<Rightarrow> nat \<Rightarrow> pystr \<Rightarrow> pystr \<Rightarrow> pystr" where
  "re_sub_run cls n repl [] = []"
| "re_sub_run cls n repl (c # cs) =
     (if cls c \<and> n \<le> length (takeWhile cls (c # cs))
      then repl @ re_sub_run cls n repl (dropWhile cls (c # cs))
      else c # re_sub_run cls n repl cs)"
  by pat_completeness auto
termination
  by (relation "measure (\<lambda>(cls, n, repl, s). length s)")
    (auto simp: less_Suc_eq_le length_dropWhile_le)

text \<open>\<open>sub in s\<close> and \<open>s.find(sub)\<close>, which is \<open>-1\<close> when \<open>sub\<close> does not occur.\<close>

fun str_contains :: "pystr \<Rightarrow> pystr \<Rightarrow> bool" where
  "str_contains [] sub = (sub = [])"
| "str_contains (c # cs) sub = (prefix sub (c # cs) \<or> str_contains cs sub)"

fun find_from :: "nat \<Rightarrow> pystr \<Rightarrow> pystr \<Rightarrow> int" where
  "find_from k [] sub = (if sub = [] then int k else - 1)"
| "find_from k (c # cs) sub = (if prefix sub (c # cs) then int k else find_from (Suc k) cs sub)"

definition find :: "pystr \<Rightarrow> pystr \<Rightarrow> int" where
  "find s sub = find_from 0 s sub"

text \<open>
  \<open>s[start:end]\<close>: a negative bound counts from the end, and both bounds are clamped to
  the string.
\<close>

definition slice_bound :: "pystr \<Rightarrow> int \<Rightarrow> nat" where
  "slice_bound s i =
     (let n = int (length s) in nat (if i < 0 then max 0 (i + n) else min i n))"

definition slice :: "pystr \<Rightarrow> int \<Rightarrow> int \<Rightarrow> pystr" where
  "slice s start end = drop (slice_bound s start) (take (slice_bound s end) s)"

text \<open>\<open>sep.join(xs)\<close>, and \<open>str(i)\<close> for an integer that is not negative.\<close>

fun join :: "pystr \<Rightarrow> pystr list \<Rightarrow> pystr" where
  "join sep [] = []"
| "join sep [x] = x"
| "join sep (x # y # ys) = x @ sep @ join sep (y # ys)"

fun str_nat :: "nat \<Rightarrow> pystr" where
  "str_nat n = (if n < 10 then [48 + n] else str_nat (n div 10) @ [48 + n mod 10])"

text \<open>
  \<open>sorted(set(xs))\<close> on strings: the set drops the duplicates, \<open>sorted\<close> puts what is
  left in ascending order.
\<close>

definition sorted_set :: "pystr list \<Rightarrow> pystr list" where
  "sorted_set xs = sort (remdups xs)"

text \<open>
  \<open>str.lower\<close> follows the Unicode character database (and is not a map over single code
  points: the lower case of U+0130 has two code points). The functions below take it as
  the parameter \<open>lower\<close>, and what is proved of them holds for every such function. On a
  string of ASCII code points \<open>str.lower\<close> is \<open>ascii_lower\<close>. On a string of ASCII code
  points and U+0130 (the capital I with a dot above) it is \<open>lower_dotted\<close>: the lower
  case of U+0130 is the letter \<open>i\<close> followed by the combining dot U+0307.
\<close>

definition ascii_lower :: "pystr \<Rightarrow> pystr" where
  "ascii_lower s = map (\<lambda>c. if 65 \<le> c \<and> c \<le> 90 then c + 32 else c) s"

definition lower_cp :: "codepoint \<Rightarrow> pystr" where
  "lower_cp c = (if 65 \<le> c \<and> c \<le> 90 then [c + 32] else if c = 304 then [105, 775] else [c])"

definition lower_dotted :: "pystr \<Rightarrow> pystr" where
  "lower_dotted s = concat (map lower_cp s)"

section \<open>The script \<open>scripts/extract-pdf-text.py\<close>\<close>

subsection \<open>\<open>normalize_text\<close>\<close>

definition normalize_text :: "pystr \<Rightarrow> pystr" where
  "normalize_text text =
     (let text = replace (replace text [CR, LF] [LF]) [CR] [LF];
          text = re_sub_run (\<lambda>c. c = SP \<or> c = TAB) 1 [SP] text;
          text = re_sub_run (\<lambda>c. c = LF) 3 [LF, LF] text
      in strip text @ [LF])"

subsection \<open>\<open>main\<close>\<close>

text \<open>
  What \<open>main\<close> meets outside the program: the PDF at the hard-coded path is missing, or
  \<open>PdfReader\<close> raises on it, or it is a document with a list of pages;
  \<open>page.extract_text()\<close> raises, or returns \<open>None\<close> or a string. A file path is the list
  of its components, and the files \<open>main\<close> can write are a map from paths to contents
  (\<open>write_text\<close> replaces the content of a file or creates it; a write that fails is not
  modelled). The effects of a run are logged in the order in which they happen.
\<close>

datatype page = ExtractFails | Extracted "pystr option"

datatype pdf = NoFile | Unreadable | Document "page list"

type_synonym path = "string list"

datatype exn = SystemExit pystr | ReaderError | ExtractError nat

datatype outcome = Done | Raised exn

datatype event =
    OpenReader
  | ExtractText nat
  | WriteText path pystr
  | PrintWrote path
  | PrintPagesProcessed nat

record run =
  status :: outcome
  events :: "event list"
  files :: "path \<rightharpoonup> pystr"

text \<open>The exit status of the process: an exception that reaches the top gives 1.\<close>

fun exit_code :: "outcome \<Rightarrow> nat" where
  "exit_code Done = 0"
| "exit_code (Raised e) = 1"

definition pdf_path :: pystr where
  "pdf_path = join [92] (map ascii [''C:'', ''Users'', ''Tay Liku'', ''OneDrive'', ''Desktop'',
     ''dotnet-api-_splitted-system.windows.automation-windowsdesktop-11.0.pdf''])"

definition out_txt :: "path \<Rightarrow> path" where
  "out_txt repo_root =
     repo_root @ [''docs'', ''pdf'', ''system.windows.automation-windowsdesktop-11.0.txt'']"

definition out_index :: "path \<Rightarrow> path" where
  "out_index repo_root =
     repo_root @ [''docs'', ''pdf'', ''system.windows.automation-windowsdesktop-11.0.index.txt'']"

definition index_terms :: "pystr list" where
  "index_terms = map ascii [
     ''AutomationElement'',
     ''AutomationPattern'',
     ''InvokePattern'',
     ''ValuePattern'',
     ''SelectionPattern'',
     ''TextPattern'',
     ''TransformPattern'',
     ''WindowPattern'',
     ''AutomationEvent'',
     ''AutomationProperty'',
     ''AutomationFocusChangedEventHandler'',
     ''StructureChangedEventHandler'',
     ''Automation.Add'',
     ''Automation.Remove'',
     ''TreeWalker'',
     ''Condition'',
     ''PropertyCondition'',
     ''AndCondition'',
     ''OrCondition'',
     ''CacheRequest'',
     ''BoundingRectangle'',
     ''FromHandle'',
     ''FromPoint'',
     ''ElementFromHandle'',
     ''ElementFromPoint'']"

text \<open>
  The body of the inner loop, for one term: the hit it appends to \<open>index_hits\<close>, if any.
\<close>

definition index_term :: "(pystr \<Rightarrow> pystr) \<Rightarrow> nat \<Rightarrow> pystr \<Rightarrow> pystr list \<Rightarrow> pystr \<Rightarrow> pystr list" where
  "index_term lower i page_text index_hits term =
     (let lowered = lower page_text in
      if str_contains lowered (lower term) then
        (let idx = find lowered (lower term);
             start = max 0 (idx - 80);
             end = min (int (length page_text)) (idx + 160);
             snippet = strip (replace (slice page_text start end) [LF] [SP])
         in index_hits @ [ascii ''Page '' @ str_nat i @ ascii '': '' @ term @ ascii '': '' @ snippet])
      else index_hits)"

text \<open>The page-boundary marker \<open>f"\n\n=== Page {i} ===\n\n"\<close> that starts a chunk.\<close>

definition page_marker :: "nat \<Rightarrow> pystr" where
  "page_marker i = [LF, LF] @ ascii ''=== Page '' @ str_nat i @ ascii '' ==='' @ [LF, LF]"

text \<open>\<open>r or ""\<close> for what \<open>extract_text\<close> returned.\<close>

definition or_empty :: "pystr option \<Rightarrow> pystr" where
  "or_empty r = (case r of None \<Rightarrow> [] | Some t \<Rightarrow> t)"

text \<open>
  The body of the loop over the pages, for page \<open>i\<close>: the two buffers after it, or the
  exception that \<open>extract_text\<close> raised. The loop logs each call of \<open>extract_text\<close>
  and stops at the first exception, which it returns with the log.
\<close>

record buffers =
  chunks :: "pystr list"
  index_hits :: "pystr list"
  logged :: "event list"

definition page_step :: "(pystr \<Rightarrow> pystr) \<Rightarrow> nat \<Rightarrow> page \<Rightarrow> buffers \<Rightarrow> exn + buffers" where
  "page_step lower i page b =
     (case page of
        ExtractFails \<Rightarrow> Inl (ExtractError i)
      | Extracted r \<Rightarrow>
          (let page_text = or_empty r
           in if strip page_text = [] then Inr b
              else
                (let page_text = normalize_text page_text;
                     b = b\<lparr>chunks := chunks b @ [page_marker i @ page_text]\<rparr>
                 in Inr (b\<lparr>index_hits := foldl (index_term lower i page_text) (index_hits b) index_terms\<rparr>))))"

fun page_loop :: "(pystr \<Rightarrow> pystr) \<Rightarrow> nat \<Rightarrow> page list \<Rightarrow> buffers \<Rightarrow> exn \<times> event list + buffers" where
  "page_loop lower i [] b = Inr b"
| "page_loop lower i (page # pages) b =
     (let b = b\<lparr>logged := logged b @ [ExtractText i]\<rparr> in
      case page_step lower i page b of
        Inl e \<Rightarrow> Inl (e, logged b)
      | Inr b' \<Rightarrow> page_loop lower (Suc i) pages b')"

definition main :: "(pystr \<Rightarrow> pystr) \<Rightarrow> path \<Rightarrow> pdf \<Rightarrow> (path \<rightharpoonup> pystr) \<Rightarrow> run" where
  "main lower repo_root pdf fs =
     (case pdf of
        NoFile \<Rightarrow>
          \<lparr>status = Raised (SystemExit (ascii ''PDF not found: '' @ pdf_path)), events = [], files = fs\<rparr>
      | Unreadable \<Rightarrow> \<lparr>status = Raised ReaderError, events = [OpenReader], files = fs\<rparr>
      | Document pages \<Rightarrow>
          (case page_loop lower 1 pages \<lparr>chunks = [], index_hits = [], logged = [OpenReader]\<rparr> of
             Inl (e, log) \<Rightarrow> \<lparr>status = Raised e, events = log, files = fs\<rparr>
           | Inr b \<Rightarrow>
               (let txt = lstrip (concat (chunks b)) @ [LF];
                    idx = join [LF] (sorted_set (index_hits b)) @ [LF];
                    fs = fs(out_txt repo_root \<mapsto> txt);
                    fs = fs(out_index repo_root \<mapsto> idx)
                in \<lparr>status = Done,
                    events = logged b @
                      [WriteText (out_txt repo_root) txt, WriteText (out_index repo_root) idx,
                       PrintWrote (out_txt repo_root), PrintWrote (out_index repo_root),
                       PrintPagesProcessed (length pages)],
                    files = fs\<rparr>)))"

section \<open>The normalizer, stage by stage, in the words of the specification\<close>

text \<open>
  The specification describes \<open>normalize_text\<close> as a chain of rewritings of the text.
  Each is written here as one pass over the text that looks at the next code points only;
  none of them is taken from the code, which calls \<open>str.replace\<close> twice and \<open>re.sub\<close>
  twice. \<open>unify_line_endings\<close> turns a carriage return with the line feed behind it, and
  every other carriage return, into one line feed. \<open>collapse_hspace\<close> leaves one space
  for every run of spaces and tabs: a space or tab that stands before another one is
  dropped, the last of the run becomes a space. \<open>cap_newlines\<close> leaves at most two
  line feeds of every run of line feeds, that is at most one empty line: a line feed that
  stands before two more is dropped. It looks at line feeds only: a line that holds
  white space is not empty for it.
\<close>

fun unify_line_endings :: "pystr \<Rightarrow> pystr" where
  "unify_line_endings [] = []"
| "unify_line_endings [c] = [if c = CR then LF else c]"
| "unify_line_endings (c # d # cs) =
     (if c = CR \<and> d = LF then LF # unify_line_endings cs
      else if c = CR then LF # unify_line_endings (d # cs)
      else c # unify_line_endings (d # cs))"

definition hspace :: "codepoint \<Rightarrow> bool" where
  "hspace c \<longleftrightarrow> c = SP \<or> c = TAB"

fun collapse_hspace :: "pystr \<Rightarrow> pystr" where
  "collapse_hspace [] = []"
| "collapse_hspace [c] = [if hspace c then SP else c]"
| "collapse_hspace (c # d # cs) =
     (if hspace c \<and> hspace d then collapse_hspace (d # cs)
      else (if hspace c then SP else c) # collapse_hspace (d # cs))"

fun cap_newlines :: "pystr \<Rightarrow> pystr" where
  "cap_newlines (c # d # e # cs) =
     (if c = LF \<and> d = LF \<and> e = LF then cap_newlines (d # e # cs)
      else c # cap_newlines (d # e # cs))"
| "cap_newlines cs = cs"

text \<open>
  The specification speaks of blank lines and of vertical white space capped at one empty
  line between paragraphs. The lines of a text are its pieces between line feeds (a line
  feed ends a line, as for \<open>str.splitlines\<close>), a line is blank when it holds nothing but
  white space, and \<open>longest_blank_run 0\<close> is the length of the longest run of consecutive
  blank lines.
\<close>

fun lines_from :: "pystr \<Rightarrow> pystr \<Rightarrow> pystr list" where
  "lines_from cur [] = (if cur = [] then [] else [cur])"
| "lines_from cur (c # cs) =
     (if c = LF then cur # lines_from [] cs else lines_from (cur @ [c]) cs)"

definition splitlines :: "pystr \<Rightarrow> pystr list" where
  "splitlines s = lines_from [] s"

fun longest_blank_run :: "nat \<Rightarrow> pystr list \<Rightarrow> nat" where
  "longest_blank_run k [] = k"
| "longest_blank_run k (l # ls) =
     (if list_all isspace l then longest_blank_run (Suc k) ls
      else max k (longest_blank_run 0 ls))"

section \<open>The calls of \<open>normalize_text\<close> against the stages of the specification\<close>

lemma replace_CR: "replace_from [CR] [LF] s = map (\<lambda>c. if c = CR then LF else c) s"
  by (induction s) auto

lemma unify_line_endings_eq:
  "replace (replace s [CR, LF] [LF]) [CR] [LF] = unify_line_endings s"
proof -
  have "map (\<lambda>c. if c = CR then LF else c) (replace_from [CR, LF] [LF] s) = unify_line_endings s"
    by (induction s rule: unify_line_endings.induct) (auto simp: CR_def LF_def)
  then show ?thesis
    by (simp add: replace_def replace_CR)
qed

lemma re_sub_hspace_eq:
  "re_sub_run (\<lambda>c. c = SP \<or> c = TAB) 1 [SP] s = collapse_hspace s"
  by (induction s rule: collapse_hspace.induct) (auto simp: hspace_def)

lemma re_sub_LF_LF:
  "re_sub_run (\<lambda>c. c = LF) 3 [LF, LF] (LF # LF # cs) =
     LF # LF # re_sub_run (\<lambda>c. c = LF) 3 [LF, LF] (dropWhile (\<lambda>c. c = LF) cs)"
  by (cases cs) auto

lemma re_sub_newlines_eq:
  "re_sub_run (\<lambda>c. c = LF) 3 [LF, LF] s = cap_newlines s"
proof (induction s rule: cap_newlines.induct)
  case (1 c d e cs)
  show ?case
  proof (cases "c = LF \<and> d = LF \<and> e = LF")
    case True
    have "cap_newlines (c # d # e # cs) = re_sub_run (\<lambda>c. c = LF) 3 [LF, LF] (LF # LF # cs)"
      using True 1 by simp
    also have "\<dots> = re_sub_run (\<lambda>c. c = LF) 3 [LF, LF] (c # d # e # cs)"
      using True by (simp add: re_sub_LF_LF del: re_sub_run.simps)
    finally show ?thesis by simp
  next
    case False
    then have "re_sub_run (\<lambda>c. c = LF) 3 [LF, LF] (c # d # e # cs) =
        c # re_sub_run (\<lambda>c. c = LF) 3 [LF, LF] (d # e # cs)"
      by auto
    with False 1 show ?thesis by auto
  qed
qed simp_all

lemma normalize_text_stages:
  "normalize_text s = strip (cap_newlines (collapse_hspace (unify_line_endings s))) @ [LF]"
  by (simp only: normalize_text_def Let_def unify_line_endings_eq re_sub_hspace_eq
      re_sub_newlines_eq)

section \<open>What each stage leaves in the text\<close>

lemma CR_notin_unify: "CR \<notin> set (unify_line_endings s)"
  by (induction s rule: unify_line_endings.induct) (auto simp: CR_def LF_def)

lemma collapse_hspace_Cons_other:
  "\<not> hspace d \<Longrightarrow> collapse_hspace (d # cs) = d # collapse_hspace cs"
  by (cases cs) auto

lemma set_collapse_hspace: "set (collapse_hspace s) \<subseteq> insert SP (set s)"
  by (induction s rule: collapse_hspace.induct) auto

lemma TAB_notin_collapse: "TAB \<notin> set (collapse_hspace s)"
  by (induction s rule: collapse_hspace.induct) (auto simp: hspace_def SP_def TAB_def)

lemma no_SP_SP_collapse: "\<not> sublist [SP, SP] (collapse_hspace s)"
proof (induction s rule: collapse_hspace.induct)
  case (3 c d cs)
  then show ?case
    by (auto simp: sublist_Cons_right collapse_hspace_Cons_other hspace_def)
qed (auto simp: sublist_Cons_right)

lemma cap_newlines_Nil: "cap_newlines s = [] \<longleftrightarrow> s = []"
  by (induction s rule: cap_newlines.induct) auto

lemma hd_cap_newlines: "hd (cap_newlines s) = hd s"
  by (induction s rule: cap_newlines.induct) auto

lemma set_cap_newlines: "set (cap_newlines s) \<subseteq> set s"
  by (induction s rule: cap_newlines.induct) auto

lemma prefix_single: "prefix [a] t \<longleftrightarrow> t \<noteq> [] \<and> hd t = a"
  by (cases t) auto

lemma sublist2_Cons:
  "sublist [a, b] (c # t) \<longleftrightarrow> (c = a \<and> t \<noteq> [] \<and> hd t = b) \<or> sublist [a, b] t"
  by (cases t) (auto simp: sublist_Cons_right)

lemma sublist3_Cons:
  "sublist [a, b, b'] (c # t) \<longleftrightarrow> (c = a \<and> prefix [b, b'] t) \<or> sublist [a, b, b'] t"
  by (auto simp: sublist_Cons_right)

lemma no_SP_SP_cap: "\<not> sublist [SP, SP] s \<Longrightarrow> \<not> sublist [SP, SP] (cap_newlines s)"
proof (induction s rule: cap_newlines.induct)
  case (1 c d e cs)
  from "1.prems" have tl: "\<not> sublist [SP, SP] (d # e # cs)" and hd: "\<not> (c = SP \<and> d = SP)"
    by (auto simp: sublist2_Cons)
  show ?case
  proof (cases "c = LF \<and> d = LF \<and> e = LF")
    case True
    with 1 tl show ?thesis by simp
  next
    case False
    with 1 tl have "\<not> sublist [SP, SP] (cap_newlines (d # e # cs))" by blast
    moreover from False have "cap_newlines (c # d # e # cs) = c # cap_newlines (d # e # cs)"
      by simp
    ultimately show ?thesis
      using hd by (simp add: sublist2_Cons [of _ _ c] hd_cap_newlines del: cap_newlines.simps)
  qed
qed auto

lemma prefix_LF_LF_cap: "prefix [LF, LF] (cap_newlines s) \<Longrightarrow> prefix [LF, LF] s"
proof (induction s rule: cap_newlines.induct)
  case (1 c d e cs)
  show ?case
  proof (cases "c = LF \<and> d = LF \<and> e = LF")
    case True
    then show ?thesis by simp
  next
    case False
    with "1.prems" have "c = LF" and "prefix [LF] (cap_newlines (d # e # cs))"
      by auto
    then have "d = LF"
      using hd_cap_newlines [of "d # e # cs"] by (simp add: prefix_single)
    with \<open>c = LF\<close> show ?thesis by simp
  qed
qed auto

lemma no_LF3_cap: "\<not> sublist [LF, LF, LF] (cap_newlines s)"
proof (induction s rule: cap_newlines.induct)
  case (1 c d e cs)
  show ?case
  proof (cases "c = LF \<and> d = LF \<and> e = LF")
    case True
    with 1 show ?thesis by simp
  next
    case False
    with 1 have ih: "\<not> sublist [LF, LF, LF] (cap_newlines (d # e # cs))" by blast
    have "\<not> (c = LF \<and> prefix [LF, LF] (cap_newlines (d # e # cs)))"
      using False prefix_LF_LF_cap [of "d # e # cs"] by auto
    moreover from False have "cap_newlines (c # d # e # cs) = c # cap_newlines (d # e # cs)"
      by simp
    ultimately show ?thesis
      using ih by (simp add: sublist3_Cons [of _ _ _ c] del: cap_newlines.simps)
  qed
qed (auto simp: sublist_Cons_right)


section \<open>Stripping\<close>

lemma isspace_simps [simp]: "isspace LF" "isspace SP" "isspace TAB" "isspace CR"
  by (simp_all add: isspace_def LF_def SP_def TAB_def CR_def)

lemma rstrip_prefix: "prefix (rstrip s) s"
proof -
  have "rev (rev s) = rev (takeWhile isspace (rev s) @ dropWhile isspace (rev s))"
    by (simp only: takeWhile_dropWhile_id)
  then have "s = rstrip s @ rev (takeWhile isspace (rev s))"
    by (simp only: rev_rev_ident rev_append rstrip_def)
  then show ?thesis by (rule prefixI)
qed

lemma lstrip_suffix: "suffix (lstrip s) s"
  by (simp add: lstrip_def suffix_dropWhile)

lemma sublist_strip: "sublist (strip s) s"
  unfolding strip_def
  by (meson lstrip_suffix rstrip_prefix prefix_imp_sublist suffix_imp_sublist sublist_order.order_trans)

lemma last_rstrip: "rstrip s \<noteq> [] \<Longrightarrow> \<not> isspace (last (rstrip s))"
  unfolding rstrip_def using hd_dropWhile [of isspace "rev s"]
  by (simp add: last_rev)

lemma hd_lstrip: "lstrip s \<noteq> [] \<Longrightarrow> \<not> isspace (hd (lstrip s))"
  unfolding lstrip_def by (rule hd_dropWhile)

lemma hd_rstrip: "rstrip s \<noteq> [] \<Longrightarrow> hd (rstrip s) = hd s"
proof -
  assume a: "rstrip s \<noteq> []"
  from rstrip_prefix [of s] obtain zs where "s = rstrip s @ zs" by (auto simp: prefix_def)
  then have "hd s = hd (rstrip s @ zs)" by simp
  with a show ?thesis by (simp add: hd_append)
qed

lemma last_strip: "strip s \<noteq> [] \<Longrightarrow> \<not> isspace (last (strip s))"
  unfolding strip_def by (rule last_rstrip)

lemma hd_strip: "strip s \<noteq> [] \<Longrightarrow> \<not> isspace (hd (strip s))"
proof -
  assume a: "strip s \<noteq> []"
  then have "lstrip s \<noteq> []" by (auto simp: strip_def rstrip_def)
  with a show ?thesis
    by (simp add: strip_def hd_rstrip hd_lstrip)
qed

lemma lstrip_id: "s = [] \<or> \<not> isspace (hd s) \<Longrightarrow> lstrip s = s"
  by (cases s) (auto simp: lstrip_def)

lemma rstrip_id: "s = [] \<or> \<not> isspace (last s) \<Longrightarrow> rstrip s = s"
  by (cases s rule: rev_cases) (auto simp: rstrip_def)

lemma strip_snoc_LF:
  assumes "t = [] \<or> (\<not> isspace (hd t) \<and> \<not> isspace (last t))"
  shows "strip (t @ [LF]) = t"
proof (cases "t = []")
  case True
  then show ?thesis by (simp add: strip_def lstrip_def rstrip_def)
next
  case False
  with assms have "lstrip (t @ [LF]) = t @ [LF]"
    by (intro lstrip_id) (simp add: hd_append)
  moreover have "rstrip (t @ [LF]) = rstrip t"
    by (simp add: rstrip_def)
  ultimately show ?thesis
    using assms False by (simp add: strip_def rstrip_id)
qed

lemma sublist_snoc_other:
  assumes "sublist xs (ys @ [c])" "xs \<noteq> []" "last xs \<noteq> c"
  shows "sublist xs ys"
proof -
  from assms(1) obtain ps ss where eq: "ys @ [c] = ps @ xs @ ss"
    by (auto simp: sublist_def)
  show ?thesis
  proof (cases ss rule: rev_cases)
    case Nil
    with eq assms(2) have "last (ys @ [c]) = last xs" by simp
    with assms(3) show ?thesis by simp
  next
    case (snoc ss' x)
    with eq have "ys = ps @ xs @ ss'"
      by (metis append_assoc butlast_snoc)
    then show ?thesis by (auto simp: sublist_def)
  qed
qed

lemma sublist_LF3_snoc:
  assumes "sublist [LF, LF, LF] (t @ [LF])"
  shows "sublist [LF, LF, LF] t \<or> (t \<noteq> [] \<and> last t = LF)"
proof -
  from assms obtain ps ss where eq: "t @ [LF] = ps @ [LF, LF, LF] @ ss"
    by (auto simp: sublist_def)
  show ?thesis
  proof (cases ss rule: rev_cases)
    case Nil
    with eq have "t @ [LF] = (ps @ [LF, LF]) @ [LF]" by simp
    then have "t = ps @ [LF, LF]" by (simp only: append1_eq_conv)
    then show ?thesis by simp
  next
    case (snoc ss' x)
    with eq have "t @ [LF] = (ps @ [LF, LF, LF] @ ss') @ [x]" by simp
    then have "t = ps @ [LF, LF, LF] @ ss'" by (simp only: append1_eq_conv)
    then show ?thesis by (auto simp: sublist_def)
  qed
qed

lemma stages_props:
  fixes s defines "t \<equiv> cap_newlines (collapse_hspace (unify_line_endings s))"
  shows "CR \<notin> set t" "TAB \<notin> set t" "\<not> sublist [SP, SP] t" "\<not> sublist [LF, LF, LF] t"
proof -
  have "set t \<subseteq> insert SP (set (unify_line_endings s))"
    unfolding t_def using set_cap_newlines set_collapse_hspace by blast
  then show "CR \<notin> set t"
    using CR_notin_unify [of s] by (auto simp: CR_def SP_def)
  show "TAB \<notin> set t"
    unfolding t_def using set_cap_newlines TAB_notin_collapse by blast
  show "\<not> sublist [SP, SP] t"
    unfolding t_def by (intro no_SP_SP_cap no_SP_SP_collapse)
  show "\<not> sublist [LF, LF, LF] t"
    unfolding t_def by (rule no_LF3_cap)
qed

section \<open>The normalizer\<close>

lemma unify_id: "CR \<notin> set s \<Longrightarrow> unify_line_endings s = s"
  by (induction s rule: unify_line_endings.induct) auto

lemma collapse_id: "TAB \<notin> set s \<Longrightarrow> \<not> sublist [SP, SP] s \<Longrightarrow> collapse_hspace s = s"
  by (induction s rule: collapse_hspace.induct) (auto simp: hspace_def sublist2_Cons)

lemma cap_id: "\<not> sublist [LF, LF, LF] s \<Longrightarrow> cap_newlines s = s"
  by (induction s rule: cap_newlines.induct) (auto simp: sublist3_Cons)

lemma normalize_text_shape:
  obtains t where "normalize_text s = t @ [LF]"
    and "t = [] \<or> (\<not> isspace (hd t) \<and> \<not> isspace (last t))"
    and "CR \<notin> set t" and "TAB \<notin> set t"
    and "\<not> sublist [SP, SP] t" and "\<not> sublist [LF, LF, LF] t"
proof -
  define z where "z = cap_newlines (collapse_hspace (unify_line_endings s))"
  define t where "t = strip z"
  have sub: "sublist t z" unfolding t_def by (rule sublist_strip)
  then have set: "set t \<subseteq> set z" by (rule set_mono_sublist)
  have z: "CR \<notin> set z" "TAB \<notin> set z" "\<not> sublist [SP, SP] z" "\<not> sublist [LF, LF, LF] z"
    unfolding z_def by (rule stages_props)+
  have 1: "normalize_text s = t @ [LF]"
    by (simp add: normalize_text_stages t_def z_def)
  have 2: "t = [] \<or> (\<not> isspace (hd t) \<and> \<not> isspace (last t))"
    unfolding t_def using hd_strip last_strip by blast
  have 3: "CR \<notin> set t" "TAB \<notin> set t" using z set by auto
  have 4: "\<not> sublist [SP, SP] t" "\<not> sublist [LF, LF, LF] t"
    using z sub sublist_order.order_trans by blast+
  from 1 2 3 4 show thesis by (rule that)
qed

lemma normalize_text_leaves_aux:
  "CR \<notin> set (normalize_text s) \<and> TAB \<notin> set (normalize_text s) \<and>
   \<not> sublist [SP, SP] (normalize_text s) \<and> \<not> sublist [LF, LF, LF] (normalize_text s)"
proof -
  obtain t where eq: "normalize_text s = t @ [LF]"
    and ends: "t = [] \<or> (\<not> isspace (hd t) \<and> \<not> isspace (last t))"
    and t: "CR \<notin> set t" "TAB \<notin> set t" "\<not> sublist [SP, SP] t" "\<not> sublist [LF, LF, LF] t"
    by (rule normalize_text_shape)
  have "CR \<notin> set (t @ [LF])" "TAB \<notin> set (t @ [LF])"
    using t by (auto simp: CR_def LF_def TAB_def)
  moreover have "\<not> sublist [SP, SP] (t @ [LF])"
    using t(3) sublist_snoc_other [of "[SP, SP]" t LF] by (auto simp: SP_def LF_def)
  moreover have "\<not> sublist [LF, LF, LF] (t @ [LF])"
    using t(4) ends sublist_LF3_snoc [of t] by auto
  ultimately show ?thesis by (simp only: eq) simp
qed

lemma cap_newlines_Cons_other: "c \<noteq> LF \<Longrightarrow> cap_newlines (c # s) = c # cap_newlines s"
  by (cases s rule: cap_newlines.cases) auto

lemma cap_newlines_no_LF: "LF \<notin> set s \<Longrightarrow> cap_newlines s = s"
  by (induction s) (auto simp: cap_newlines_Cons_other)

lemma strip_plain: "s \<noteq> [] \<Longrightarrow> \<not> isspace (hd s) \<Longrightarrow> \<not> isspace (last s) \<Longrightarrow> strip s = s"
  by (simp add: strip_def lstrip_id rstrip_id)

lemma collapse_no_hspace: "\<forall>c\<in>set s. \<not> hspace c \<Longrightarrow> collapse_hspace s = s"
  by (induction s rule: collapse_hspace.induct) auto

lemmas eval_defs = normalize_text_stages strip_def lstrip_def rstrip_def ascii_def CR_def LF_def
  hspace_def SP_def TAB_def isspace_def

lemma unify_Cons_other: "c \<noteq> CR \<Longrightarrow> unify_line_endings (c # s) = c # unify_line_endings s"
  by (cases s) auto

lemma unify_append:
  "u \<noteq> [] \<Longrightarrow> last u \<noteq> CR \<Longrightarrow> unify_line_endings (u @ w) = unify_line_endings u @ unify_line_endings w"
proof (induction u rule: unify_line_endings.induct)
  case 1
  then show ?case by simp
next
  case (2 c)
  then show ?case by (simp add: unify_Cons_other)
next
  case (3 c d cs)
  show ?case
  proof (cases "cs = []")
    case True
    with 3 show ?thesis by (simp add: unify_Cons_other)
  next
    case False
    with 3 show ?thesis by auto
  qed
qed

lemma unify_Nil: "unify_line_endings s = [] \<longleftrightarrow> s = []"
  by (induction s rule: unify_line_endings.induct) auto

lemma last_unify: "s \<noteq> [] \<Longrightarrow> last s \<noteq> CR \<Longrightarrow> last (unify_line_endings s) = last s"
  by (induction s rule: unify_line_endings.induct) (auto simp: unify_Nil)

lemma hd_unify: "s \<noteq> [] \<Longrightarrow> hd s \<noteq> CR \<Longrightarrow> hd (unify_line_endings s) = hd s"
  by (cases s) (simp_all add: unify_Cons_other)

lemma unify_run: "unify_line_endings (replicate n LF @ v) = replicate n LF @ unify_line_endings v"
  by (induction n) (simp_all add: unify_Cons_other CR_def LF_def)

lemma collapse_append:
  "a \<noteq> [] \<Longrightarrow> \<not> hspace (last a) \<Longrightarrow> collapse_hspace (a @ w) = collapse_hspace a @ collapse_hspace w"
proof (induction a rule: collapse_hspace.induct)
  case 1
  then show ?case by simp
next
  case (2 c)
  then show ?case by (simp add: collapse_hspace_Cons_other)
next
  case (3 c d cs)
  then show ?case by auto
qed

lemma collapse_Nil: "collapse_hspace s = [] \<longleftrightarrow> s = []"
  by (induction s rule: collapse_hspace.induct) auto

lemma last_collapse: "s \<noteq> [] \<Longrightarrow> \<not> hspace (last s) \<Longrightarrow> last (collapse_hspace s) = last s"
  by (induction s rule: collapse_hspace.induct) (auto simp: collapse_Nil)

lemma hd_collapse: "s \<noteq> [] \<Longrightarrow> \<not> hspace (hd s) \<Longrightarrow> hd (collapse_hspace s) = hd s"
  by (cases s) (simp_all add: collapse_hspace_Cons_other)

lemma collapse_run: "collapse_hspace (replicate n LF @ v) = replicate n LF @ collapse_hspace v"
  by (induction n) (simp_all add: collapse_hspace_Cons_other hspace_def SP_def TAB_def LF_def)

lemma cap_append:
  "a \<noteq> [] \<Longrightarrow> last a \<noteq> LF \<Longrightarrow> cap_newlines (a @ w) = cap_newlines a @ cap_newlines w"
proof (induction a rule: cap_newlines.induct)
  case (1 c d e cs)
  then show ?case by auto
next
  case "2_1"
  then show ?case by simp
next
  case "2_2"
  then show ?case by (simp add: cap_newlines_Cons_other)
next
  case "2_3"
  then show ?case by (cases w) (simp_all add: cap_newlines_Cons_other)
qed

lemma last_cap: "last (cap_newlines s) = last s"
  by (induction s rule: cap_newlines.induct) (auto simp: cap_newlines_Nil)

lemma cap_run:
  assumes "b \<noteq> []" "hd b \<noteq> LF"
  shows "cap_newlines (replicate n LF @ b) = replicate (min n 2) LF @ cap_newlines b"
proof -
  from assms obtain d b' where b: "b = d # b'" and d: "d \<noteq> LF" by (cases b) auto
  have 1: "cap_newlines (LF # b) = LF # cap_newlines b"
    using d unfolding b by (cases b') (simp_all add: cap_newlines_Cons_other)
  have 2: "cap_newlines (LF # LF # b) = LF # LF # cap_newlines b"
    using d 1 unfolding b by simp
  have 3: "cap_newlines (replicate (Suc (Suc k)) LF @ b) = LF # LF # cap_newlines b" for k
    by (induction k) (simp_all add: 2)
  show ?thesis
  proof (cases n)
    case 0
    then show ?thesis by simp
  next
    case (Suc m)
    show ?thesis
    proof (cases m)
      case 0
      with Suc 1 show ?thesis by simp
    next
      case (Suc k)
      with \<open>n = Suc m\<close> 3 [of k] show ?thesis by (simp add: numeral_2_eq_2)
    qed
  qed
qed

lemma lstrip_append: "\<exists>c\<in>set a. \<not> isspace c \<Longrightarrow> lstrip (a @ w) = lstrip a @ w"
  by (auto simp: lstrip_def dropWhile_append1)

lemma rstrip_append: "\<exists>c\<in>set b. \<not> isspace c \<Longrightarrow> rstrip (w @ b) = w @ rstrip b"
  by (auto simp: rstrip_def dropWhile_append1)

lemma strip_between:
  assumes "a \<noteq> []" "\<not> isspace (last a)" "b \<noteq> []" "\<not> isspace (hd b)"
  shows "strip (a @ m @ b) = strip a @ m @ strip b"
proof -
  have ea: "\<exists>c\<in>set a. \<not> isspace c" using assms(1,2) last_in_set by blast
  have eb: "\<exists>c\<in>set b. \<not> isspace c" using assms(3,4) hd_in_set by blast
  have la: "lstrip a \<noteq> []" using ea by (auto simp: lstrip_def dropWhile_eq_Nil_conv)
  from lstrip_suffix [of a] obtain p where "a = p @ lstrip a" by (auto simp: suffix_def)
  with la have "last (lstrip a) = last a" by (metis last_appendR)
  with assms(2) la have sa: "strip a = lstrip a" by (simp add: strip_def rstrip_id)
  have sb: "strip b = rstrip b" using assms(3,4) by (simp add: strip_def lstrip_id)
  have "strip (a @ m @ b) = rstrip ((lstrip a @ m) @ b)"
    using ea by (simp add: strip_def lstrip_append)
  also have "\<dots> = (lstrip a @ m) @ rstrip b" using eb by (rule rstrip_append)
  finally show ?thesis by (simp add: sa sb)
qed

lemma normalize_text_between:
  assumes u: "u \<noteq> []" "\<not> isspace (last u)" and v: "v \<noteq> []" "\<not> isspace (hd v)"
  shows "normalize_text (u @ replicate n LF @ v) =
     butlast (normalize_text u) @ replicate (min n 2) LF @ normalize_text v"
proof -
  let ?u1 = "unify_line_endings u" and ?v1 = "unify_line_endings v"
  let ?u2 = "collapse_hspace ?u1" and ?v2 = "collapse_hspace ?v1"
  let ?u3 = "cap_newlines ?u2" and ?v3 = "cap_newlines ?v2"
  have lu: "last u \<noteq> CR" "\<not> hspace (last u)" "last u \<noteq> LF"
    using u(2) isspace_simps by (auto simp: hspace_def)
  have hv: "hd v \<noteq> CR" "\<not> hspace (hd v)" "hd v \<noteq> LF"
    using v(2) isspace_simps by (auto simp: hspace_def)
  have u1: "?u1 \<noteq> []" "last ?u1 = last u"
    using u(1) lu(1) by (simp_all add: unify_Nil last_unify)
  have v1: "?v1 \<noteq> []" "hd ?v1 = hd v"
    using v(1) hv(1) by (simp_all add: unify_Nil hd_unify)
  have u2: "?u2 \<noteq> []" "last ?u2 = last u"
    using u1 lu(2) by (simp_all add: collapse_Nil last_collapse)
  have v2: "?v2 \<noteq> []" "hd ?v2 = hd v"
    using v1 hv(2) by (simp_all add: collapse_Nil hd_collapse)
  have u3: "?u3 \<noteq> []" "last ?u3 = last u"
    using u2 by (simp_all add: cap_newlines_Nil last_cap)
  have v3: "?v3 \<noteq> []" "hd ?v3 = hd v"
    using v2 by (simp_all add: cap_newlines_Nil hd_cap_newlines)
  have 1: "unify_line_endings (u @ replicate n LF @ v) = ?u1 @ replicate n LF @ ?v1"
    using u(1) lu(1) by (simp add: unify_append unify_run)
  have 2: "collapse_hspace (?u1 @ replicate n LF @ ?v1) = ?u2 @ replicate n LF @ ?v2"
    using u1 lu(2) by (simp add: collapse_append collapse_run)
  have 3: "cap_newlines (?u2 @ replicate n LF @ ?v2) = ?u3 @ replicate (min n 2) LF @ ?v3"
    using u2 lu(3) v2 hv(3) by (simp add: cap_append cap_run)
  have 4: "strip (?u3 @ replicate (min n 2) LF @ ?v3) = strip ?u3 @ replicate (min n 2) LF @ strip ?v3"
    using u3 v3 u(2) v(2) by (intro strip_between) simp_all
  show ?thesis
    by (simp only: normalize_text_stages 1 2 3 4 butlast_snoc append_assoc)
qed

text \<open>
  Claim C2 as the specification states it fails on the code. A line that holds a tab is
  blank, but the code caps runs of line feeds only: of seven consecutive blank lines
  between \<open>a\<close> and \<open>b\<close>, the middle one holding a tab, three are left, the middle one
  holding a space, so the vertical white space between the two paragraphs is not capped
  at one empty line.
\<close>

theorem normalize_text_keeps_blank_lines:
  "longest_blank_run 0
     (splitlines (ascii ''a'' @ [LF, LF, LF, LF, TAB, LF, LF, LF, LF] @ ascii ''b'')) = 7 \<and>
   normalize_text (ascii ''a'' @ [LF, LF, LF, LF, TAB, LF, LF, LF, LF] @ ascii ''b'') =
     ascii ''a'' @ [LF, LF, SP, LF, LF] @ ascii ''b'' @ [LF] \<and>
   splitlines (normalize_text (ascii ''a'' @ [LF, LF, LF, LF, TAB, LF, LF, LF, LF] @ ascii ''b'')) =
     [ascii ''a'', [], [SP], [], ascii ''b''] \<and>
   longest_blank_run 0
     (splitlines (normalize_text (ascii ''a'' @ [LF, LF, LF, LF, TAB, LF, LF, LF, LF] @ ascii ''b''))) = 3"
  by (simp add: eval_defs splitlines_def)

text \<open>
  Claim C2 as amended, the contract of the normalizer. For every input string \<open>x\<close>, what
  \<open>normalize_text\<close> computes with its calls of \<open>replace\<close> and \<open>re.sub\<close> is: all
  \<open>"\r\n"\<close> and \<open>"\r"\<close> turned into \<open>"\n"\<close>, then every run of spaces and tabs
  collapsed to one space, then every run of three or more line feeds replaced by two line
  feeds, then the white space at both ends of the whole text trimmed, then one line feed
  appended. The function is total (every function here is, with its termination proved),
  the empty string gives a single line feed, \<open>"a\r\nb\r\rc"\<close> gives \<open>"a\nb\n\nc\n"\<close>, and
  \<open>"  a \t b  \n\n"\<close> gives \<open>"a b\n"\<close>. Between a text \<open>u\<close> that ends in a code point
  that is not white space and a text \<open>v\<close> that starts with one, a run of \<open>n\<close> line feeds
  comes out as \<open>min n 2\<close> line feeds between the normalized \<open>u\<close> (without its final line
  feed) and the normalized \<open>v\<close>: a run of empty lines becomes one empty line. A line that
  holds only a space is not empty and is kept, as in \<open>"a\n \n \n \nb"\<close>.
\<close>

theorem normalize_text_contract:
  "normalize_text x = strip (cap_newlines (collapse_hspace (unify_line_endings x))) @ [LF] \<and>
   normalize_text [] = [LF] \<and>
   normalize_text (ascii ''a'' @ [CR, LF] @ ascii ''b'' @ [CR, CR] @ ascii ''c'') =
     ascii ''a'' @ [LF] @ ascii ''b'' @ [LF, LF] @ ascii ''c'' @ [LF] \<and>
   normalize_text (ascii ''  a '' @ [TAB] @ ascii '' b  '' @ [LF, LF]) = ascii ''a b'' @ [LF] \<and>
   (u \<noteq> [] \<and> \<not> isspace (last u) \<and> v \<noteq> [] \<and> \<not> isspace (hd v) \<longrightarrow>
      normalize_text (u @ replicate n LF @ v) =
        butlast (normalize_text u) @ replicate (min n 2) LF @ normalize_text v) \<and>
   normalize_text (ascii ''a'' @ [LF, SP, LF, SP, LF, SP, LF] @ ascii ''b'') =
     ascii ''a'' @ [LF, SP, LF, SP, LF, SP, LF] @ ascii ''b'' @ [LF]"
proof -
  have 1: "normalize_text [] = [LF]"
    by (simp add: eval_defs)
  have 2: "normalize_text (ascii ''a'' @ [CR, LF] @ ascii ''b'' @ [CR, CR] @ ascii ''c'') =
     ascii ''a'' @ [LF] @ ascii ''b'' @ [LF, LF] @ ascii ''c'' @ [LF]"
    by (simp add: eval_defs)
  have 3: "normalize_text (ascii ''  a '' @ [TAB] @ ascii '' b  '' @ [LF, LF]) = ascii ''a b'' @ [LF]"
    by (simp add: eval_defs)
  have 4: "normalize_text (ascii ''a'' @ [LF, SP, LF, SP, LF, SP, LF] @ ascii ''b'') =
     ascii ''a'' @ [LF, SP, LF, SP, LF, SP, LF] @ ascii ''b'' @ [LF]"
    by (simp add: eval_defs)
  show ?thesis
    using normalize_text_stages [of x] normalize_text_between [of u v n] 1 2 3 4 by blast
qed

theorem normalize_text_contract_witness:
  "normalize_text (ascii ''Intro  text'' @ replicate 4 LF @ ascii ''Body'' @ [TAB] @ ascii ''text '') =
     ascii ''Intro text'' @ [LF, LF] @ ascii ''Body text'' @ [LF] \<and>
   butlast (normalize_text (ascii ''Intro  text'')) = ascii ''Intro text'' \<and>
   normalize_text (ascii ''Body'' @ [TAB] @ ascii ''text '') = ascii ''Body text'' @ [LF]"
proof -
  have u: "butlast (normalize_text (ascii ''Intro  text'')) = ascii ''Intro text''"
    by (simp add: eval_defs)
  have v: "normalize_text (ascii ''Body'' @ [TAB] @ ascii ''text '') = ascii ''Body text'' @ [LF]"
    by (simp add: eval_defs)
  have "ascii ''Intro  text'' \<noteq> [] \<and> \<not> isspace (last (ascii ''Intro  text'')) \<and>
      ascii ''Body'' @ [TAB] @ ascii ''text '' \<noteq> [] \<and>
      \<not> isspace (hd (ascii ''Body'' @ [TAB] @ ascii ''text ''))"
    by (simp add: ascii_def isspace_def)
  with normalize_text_contract [of "[]" "ascii ''Intro  text''" "ascii ''Body'' @ [TAB] @ ascii ''text ''" 4]
  have "normalize_text (ascii ''Intro  text'' @ replicate 4 LF @ ascii ''Body'' @ [TAB] @ ascii ''text '') =
      butlast (normalize_text (ascii ''Intro  text'')) @ replicate (min 4 2) LF @
      normalize_text (ascii ''Body'' @ [TAB] @ ascii ''text '')"
    by blast
  then have "normalize_text (ascii ''Intro  text'' @ replicate 4 LF @ ascii ''Body'' @ [TAB] @ ascii ''text '') =
      ascii ''Intro text'' @ [LF, LF] @ ascii ''Body text'' @ [LF]"
    by (simp only: u v) (simp add: numeral_2_eq_2)
  with u v show ?thesis by (intro conjI)
qed

text \<open>
  Claim C10: for every input string, the output of \<open>normalize_text\<close> holds no carriage
  return, no tab, no two spaces in a row and no three line feeds in a row.
\<close>

theorem normalize_text_leaves:
  "CR \<notin> set (normalize_text s) \<and> TAB \<notin> set (normalize_text s) \<and>
   \<not> sublist [SP, SP] (normalize_text s) \<and> \<not> sublist [LF, LF, LF] (normalize_text s)"
  by (rule normalize_text_leaves_aux)

text \<open>
  Claim C4: normalization is idempotent, \<open>normalize_text (normalize_text x) = normalize_text x\<close>
  for every string \<open>x\<close>; and the result always ends in exactly one line feed with no
  white space before it: it is some \<open>t\<close> followed by one line feed, where \<open>t\<close> is empty
  or ends in a code point that is not white space (a line feed is white space).
\<close>

theorem normalize_text_idempotent:
  "normalize_text (normalize_text x) = normalize_text x \<and>
   (\<exists>t. normalize_text x = t @ [LF] \<and> (t = [] \<or> \<not> isspace (last t)))"
proof -
  obtain t where eq: "normalize_text x = t @ [LF]"
    and ends: "t = [] \<or> (\<not> isspace (hd t) \<and> \<not> isspace (last t))"
    by (rule normalize_text_shape)
  let ?y = "normalize_text x"
  have y: "CR \<notin> set ?y" "TAB \<notin> set ?y" "\<not> sublist [SP, SP] ?y" "\<not> sublist [LF, LF, LF] ?y"
    using normalize_text_leaves_aux [of x] by simp_all
  have "cap_newlines (collapse_hspace (unify_line_endings ?y)) = ?y"
    using y by (simp add: unify_id collapse_id cap_id)
  then have "normalize_text ?y = strip ?y @ [LF]"
    by (simp only: normalize_text_stages [of ?y])
  also have "\<dots> = strip (t @ [LF]) @ [LF]"
    by (simp only: eq)
  also have "\<dots> = t @ [LF]"
    using ends by (simp add: strip_snoc_LF)
  finally have "normalize_text ?y = ?y" by (simp add: eq)
  moreover have "\<exists>t. ?y = t @ [LF] \<and> (t = [] \<or> \<not> isspace (last t))"
    using eq ends by blast
  ultimately show ?thesis by simp
qed

section \<open>The indexer\<close>

lemma str_contains_sublist: "str_contains s sub \<longleftrightarrow> sublist sub s"
  by (induction s) (auto simp: sublist_Cons_right)

lemma sublist_drop: "sublist sub s \<longleftrightarrow> (\<exists>j. prefix sub (drop j s))"
proof
  assume "sublist sub s"
  then obtain ps ss where "s = ps @ sub @ ss" by (auto simp: sublist_def)
  then have "prefix sub (drop (length ps) s)" by simp
  then show "\<exists>j. prefix sub (drop j s)" ..
next
  assume "\<exists>j. prefix sub (drop j s)"
  then obtain j where "prefix sub (drop j s)" ..
  then have "sublist sub (drop j s)" by (rule prefix_imp_sublist)
  then show "sublist sub s"
    using sublist_drop sublist_order.order_trans suffix_drop suffix_imp_sublist by blast
qed

lemma find_from_least:
  "sublist sub s \<Longrightarrow> find_from k s sub = int (k + (LEAST j. prefix sub (drop j s)))"
proof (induction s arbitrary: k)
  case Nil
  then show ?case by simp
next
  case (Cons c cs)
  show ?case
  proof (cases "prefix sub (c # cs)")
    case True
    then have "(LEAST j. prefix sub (drop j (c # cs))) = 0"
      by (intro Least_eq_0) simp
    with True show ?thesis by simp
  next
    case False
    with Cons.prems have sub: "sublist sub cs" by (simp add: sublist_Cons_right)
    then obtain j where j: "prefix sub (drop j cs)" by (auto simp: sublist_drop)
    have "(LEAST j. prefix sub (drop j (c # cs))) = Suc (LEAST m. prefix sub (drop (Suc m) (c # cs)))"
      using j False by (intro Least_Suc [where n = "Suc j"]) simp_all
    with False Cons.IH [OF sub, of "Suc k"] show ?thesis by simp
  qed
qed

lemma find_least: "sublist sub s \<Longrightarrow> find s sub = int (LEAST j. prefix sub (drop j s))"
  by (simp add: find_def find_from_least)

lemma replace_single: "replace s [a] [b] = map (\<lambda>c. if c = a then b else c) s"
  by (induction s) (auto simp: replace_def)

lemma slice_window:
  "slice s (max 0 (int k - 80)) (min (int (length s)) (int k + 160)) = drop (k - 80) (take (k + 160) s)"
proof -
  have a: "slice_bound s (max 0 (int k - 80)) = min (k - 80) (length s)"
    by (auto simp: slice_bound_def Let_def)
  have b: "slice_bound s (min (int (length s)) (int k + 160)) = min (length s) (k + 160)"
    by (auto simp: slice_bound_def Let_def)
  have "drop (min (k - 80) (length s)) (take (min (length s) (k + 160)) s) =
      drop (k - 80) (take (k + 160) s)"
    by (cases "k - 80 \<le> length s") (auto simp: min_def)
  then show ?thesis by (simp only: slice_def a b)
qed

lemma index_term_eq:
  "index_term lower i page_text hits term =
     (if sublist (lower term) (lower page_text)
      then hits @ [ascii ''Page '' @ str_nat i @ ascii '': '' @ term @ ascii '': '' @
        strip (map (\<lambda>c. if c = LF then SP else c)
          (let k = (LEAST j. prefix (lower term) (drop j (lower page_text)))
           in drop (k - 80) (take (k + 160) page_text)))]
      else hits)"
  by (simp add: index_term_def Let_def str_contains_sublist find_least slice_window replace_single)

lemma foldl_index_term:
  "foldl (index_term lower i page_text) hits terms =
     hits @ map (\<lambda>term. ascii ''Page '' @ str_nat i @ ascii '': '' @ term @ ascii '': '' @
        strip (map (\<lambda>c. if c = LF then SP else c)
          (let k = (LEAST j. prefix (lower term) (drop j (lower page_text)))
           in drop (k - 80) (take (k + 160) page_text))))
       (filter (\<lambda>term. sublist (lower term) (lower page_text)) terms)"
  by (induction terms arbitrary: hits) (simp_all add: index_term_eq)

subsection \<open>A text whose lower case is longer than the text\<close>

lemma lower_dotted_append: "lower_dotted (s @ t) = lower_dotted s @ lower_dotted t"
  by (simp add: lower_dotted_def)

lemma lower_dotted_run: "lower_dotted (replicate n 304) = concat (replicate n [105, 775])"
  by (induction n) (simp_all add: lower_dotted_def lower_cp_def)

lemma lower_dotted_Condition:
  "lower_dotted (ascii ''Condition'') = ascii ''condition''"
  "lower_dotted [LF] = [LF]"
  by (simp_all add: lower_dotted_def lower_cp_def ascii_def LF_def)

lemma find_from_skip:
  "sub \<noteq> [] \<Longrightarrow> hd sub \<notin> set p \<Longrightarrow> find_from k (p @ s) sub = find_from (k + length p) s sub"
proof (induction p arbitrary: k)
  case Nil
  then show ?case by simp
next
  case (Cons c p)
  then have "\<not> prefix sub (c # p @ s)" by (cases sub) auto
  with Cons show ?case by simp
qed

lemma set_dotted_run: "set (concat (replicate n [105, 775])) \<subseteq> {105, 775}"
  by (induction n) auto

lemma length_dotted_run: "length (concat (replicate n [105::nat, 775])) = 2 * n"
  by (induction n) auto

lemma failing_lowered:
  "lower_dotted (replicate 200 304 @ ascii ''Condition'' @ [LF]) =
     concat (replicate 200 [105, 775]) @ ascii ''condition'' @ [LF]"
  by (simp only: lower_dotted_append lower_dotted_run lower_dotted_Condition)

lemma failing_find_lowered:
  "find (concat (replicate 200 [105, 775]) @ ascii ''condition'' @ [LF]) (ascii ''condition'') = 400"
proof -
  have "hd (ascii ''condition'') \<notin> set (concat (replicate 200 [105, 775]))"
    using set_dotted_run [of 200] by (auto simp: ascii_def)
  then have "find_from 0 (concat (replicate 200 [105, 775]) @ ascii ''condition'' @ [LF]) (ascii ''condition'') =
      find_from (0 + length (concat (replicate 200 [105::nat, 775]))) (ascii ''condition'' @ [LF]) (ascii ''condition'')"
    by (intro find_from_skip) (simp_all add: ascii_def)
  also have "\<dots> = 400"
    by (simp add: length_dotted_run ascii_def)
  finally show ?thesis by (simp add: find_def)
qed

lemma failing_find_text:
  "find (replicate 200 304 @ ascii ''Condition'' @ [LF]) (ascii ''Condition'') = 200"
proof -
  have "find_from 0 (replicate 200 304 @ ascii ''Condition'' @ [LF]) (ascii ''Condition'') =
      find_from (0 + length (replicate 200 (304::nat))) (ascii ''Condition'' @ [LF]) (ascii ''Condition'')"
    by (intro find_from_skip) (simp_all add: ascii_def)
  also have "\<dots> = 200"
    by (simp add: ascii_def)
  finally show ?thesis by (simp add: find_def)
qed

lemma failing_contains:
  "str_contains (concat (replicate 200 [105, 775]) @ ascii ''condition'' @ [LF]) (ascii ''condition'')"
  unfolding str_contains_sublist by (rule sublist_appendI)

lemma failing_slice:
  "slice (replicate 200 304 @ ascii ''Condition'' @ [LF]) (max 0 (400 - 80))
     (min (int (length (replicate 200 (304::nat) @ ascii ''Condition'' @ [LF]))) (400 + 160)) = []"
  by (simp add: slice_def slice_bound_def ascii_def)

lemma failing_hit:
  "index_term lower_dotted 1 (replicate 200 304 @ ascii ''Condition'' @ [LF]) [] (ascii ''Condition'') =
     [ascii ''Page 1: Condition: '']"
proof -
  have "strip (replace [] [LF] [SP]) = []"
    by (simp add: replace_def strip_def lstrip_def rstrip_def)
  then show ?thesis
    unfolding index_term_def Let_def failing_lowered lower_dotted_Condition failing_find_lowered
    by (simp only: failing_contains failing_slice if_True append_Nil) (simp add: ascii_def)
qed

lemma failing_window:
  "strip (replace (slice (replicate 200 304 @ ascii ''Condition'' @ [LF]) (max 0 (200 - 80))
      (min (int (length (replicate 200 (304::nat) @ ascii ''Condition'' @ [LF]))) (200 + 160))) [LF] [SP]) =
   replicate 80 304 @ ascii ''Condition''"
proof -
  have "slice (replicate 200 304 @ ascii ''Condition'' @ [LF]) (max 0 (200 - 80))
      (min (int (length (replicate 200 (304::nat) @ ascii ''Condition'' @ [LF]))) (200 + 160)) =
      replicate 80 304 @ ascii ''Condition'' @ [LF]"
    by (simp add: slice_def slice_bound_def ascii_def)
  moreover have "replace (replicate 80 304 @ ascii ''Condition'' @ [LF]) [LF] [SP] =
      replicate 80 304 @ ascii ''Condition'' @ [SP]"
    by (simp add: replace_single ascii_def LF_def)
  moreover have "strip ((replicate 80 304 @ ascii ''Condition'') @ [SP]) = replicate 80 304 @ ascii ''Condition''"
  proof -
    have "lstrip ((replicate 80 304 @ ascii ''Condition'') @ [SP]) = (replicate 80 304 @ ascii ''Condition'') @ [SP]"
      by (intro lstrip_id) (simp add: hd_append isspace_def)
    moreover have "rstrip ((replicate 80 304 @ ascii ''Condition'') @ [SP]) = rstrip (replicate 80 304 @ ascii ''Condition'')"
      by (simp add: rstrip_def)
    moreover have "rstrip (replicate 80 304 @ ascii ''Condition'') = replicate 80 304 @ ascii ''Condition''"
      by (intro rstrip_id) (simp add: ascii_def isspace_def)
    ultimately show ?thesis by (simp only: strip_def)
  qed
  ultimately show ?thesis by simp
qed

lemma failing_normalized:
  "normalize_text (replicate 200 304 @ ascii ''Condition'') = replicate 200 304 @ ascii ''Condition'' @ [LF]"
proof -
  let ?s = "replicate 200 304 @ ascii ''Condition''"
  have 1: "unify_line_endings ?s = ?s"
    by (rule unify_id) (simp add: ascii_def CR_def)
  have 2: "collapse_hspace ?s = ?s"
    by (rule collapse_no_hspace) (simp add: ascii_def hspace_def SP_def TAB_def)
  have 3: "cap_newlines ?s = ?s"
    by (rule cap_newlines_no_LF) (simp add: ascii_def LF_def)
  have 4: "strip ?s = ?s"
    by (rule strip_plain) (simp_all add: hd_append ascii_def isspace_def)
  show ?thesis
    by (simp only: normalize_text_stages 1 2 3 4 append_assoc)
qed

text \<open>
  Claim C1, the contract of the indexer, against the code on a text in which \<open>str.lower\<close>
  changes the number of code points. The page text is U+0130 two hundred times followed
  by \<open>Condition\<close>, and the term is \<open>Condition\<close>. The text is its own normal form (with the
  final line feed), and the term starts at offset 200 in it. The code looks for the offset
  in the lower-cased text, where it is 400, and cuts the window at this offset from the
  text itself, whose 210 code points end before the window starts: the hit that
  \<open>main\<close> records is \<open>"Page 1: Condition: "\<close> with an empty snippet. The window of the
  claim, from 80 code points before the match to 160 after it, clamped, with the line feed
  turned into a space and trimmed, is U+0130 eighty times followed by \<open>Condition\<close>.
\<close>

theorem indexer_snippet_misses_match:
  "normalize_text (replicate 200 304 @ ascii ''Condition'') =
     replicate 200 304 @ ascii ''Condition'' @ [LF] \<and>
   find (replicate 200 304 @ ascii ''Condition'' @ [LF]) (ascii ''Condition'') = 200 \<and>
   find (lower_dotted (replicate 200 304 @ ascii ''Condition'' @ [LF]))
     (lower_dotted (ascii ''Condition'')) = 400 \<and>
   index_term lower_dotted 1 (replicate 200 304 @ ascii ''Condition'' @ [LF]) [] (ascii ''Condition'') =
     [ascii ''Page 1: Condition: ''] \<and>
   strip (replace (slice (replicate 200 304 @ ascii ''Condition'' @ [LF]) (max 0 (200 - 80))
      (min (int (length (replicate 200 (304::nat) @ ascii ''Condition'' @ [LF]))) (200 + 160))) [LF] [SP]) =
     replicate 80 304 @ ascii ''Condition''"
  by (simp only: failing_normalized failing_find_text failing_lowered lower_dotted_Condition
      failing_find_lowered failing_hit failing_window simp_thms)

section \<open>The loop over the pages\<close>

lemma strip_Nil_iff: "strip s = [] \<longleftrightarrow> (\<forall>c\<in>set s. isspace c)"
proof
  assume "\<forall>c\<in>set s. isspace c"
  then show "strip s = []"
    by (auto simp: strip_def lstrip_def rstrip_def dest: set_dropWhileD)
next
  assume "strip s = []"
  then have all: "\<forall>c\<in>set (dropWhile isspace s). isspace c"
    by (simp add: strip_def lstrip_def rstrip_def dropWhile_eq_Nil_conv)
  have "dropWhile isspace s = []"
  proof (rule ccontr)
    assume ne: "dropWhile isspace s \<noteq> []"
    then have "hd (dropWhile isspace s) \<in> set (dropWhile isspace s)" by simp
    with all have "isspace (hd (dropWhile isspace s))" by blast
    with hd_dropWhile [OF ne] show False by simp
  qed
  then show "\<forall>c\<in>set s. isspace c" by (simp add: dropWhile_eq_Nil_conv)
qed

lemma foldl_index_term_Nil:
  "foldl (index_term lower i page_text) hits terms =
     hits @ foldl (index_term lower i page_text) [] terms"
  by (simp add: foldl_index_term [of _ _ _ hits] foldl_index_term [of _ _ _ "[]"])

lemma page_step_blank:
  "strip (or_empty r) = [] \<Longrightarrow> page_step lower i (Extracted r) b = Inr b"
  by (simp add: page_step_def)

lemma page_step_text:
  "strip (or_empty r) \<noteq> [] \<Longrightarrow> page_step lower i (Extracted r) b =
     Inr (b\<lparr>chunks := chunks b @ [page_marker i @ normalize_text (or_empty r)],
            index_hits := index_hits b @
              foldl (index_term lower i (normalize_text (or_empty r))) [] index_terms\<rparr>)"
  by (simp add: page_step_def Let_def foldl_index_term_Nil [of _ _ _ "index_hits b"])

lemma page_loop_ok:
  "page_loop lower i (map Extracted rs) b =
     Inr \<lparr>chunks = chunks b @
            map (\<lambda>(j, r). page_marker j @ normalize_text (or_empty r))
              (filter (\<lambda>(j, r). strip (or_empty r) \<noteq> []) (List.enumerate i rs)),
          index_hits = index_hits b @
            concat (map (\<lambda>(j, r). foldl (index_term lower j (normalize_text (or_empty r))) [] index_terms)
              (filter (\<lambda>(j, r). strip (or_empty r) \<noteq> []) (List.enumerate i rs))),
          logged = logged b @ map ExtractText [i..<i + length rs]\<rparr>"
proof (induction rs arbitrary: i b)
  case Nil
  then show ?case by simp
next
  case (Cons r rs)
  show ?case
  proof (cases "strip (or_empty r) = []")
    case True
    then show ?thesis
      by (simp add: page_step_blank Cons.IH upt_rec [of i] del: upt.simps)
  next
    case False
    then show ?thesis
      by (simp add: page_step_text Cons.IH upt_rec [of i] del: upt.simps)
  qed
qed

lemma page_loop_fails:
  "page_loop lower i (map Extracted rs @ ExtractFails # rest) b =
     Inl (ExtractError (i + length rs), logged b @ map ExtractText [i..<Suc (i + length rs)])"
proof (induction rs arbitrary: i b)
  case Nil
  then show ?case by (simp add: page_step_def)
next
  case (Cons r rs)
  show ?case
  proof (cases "strip (or_empty r) = []")
    case True
    then show ?thesis
      by (simp add: page_step_blank Cons.IH upt_rec [of i] del: upt.simps)
  next
    case False
    then show ?thesis
      by (simp add: page_step_text Cons.IH upt_rec [of i] del: upt.simps)
  qed
qed

lemma pages_cases:
  obtains rs where "pages = map Extracted rs"
  | rs rest where "pages = map Extracted rs @ ExtractFails # rest"
proof (induction pages arbitrary: thesis)
  case Nil
  from Nil(1) [of "[]"] show ?case by simp
next
  case (Cons p pages)
  show ?case
  proof (cases p)
    case ExtractFails
    with Cons.prems(2) [of "[]" pages] show ?thesis by simp
  next
    case (Extracted r)
    show ?thesis
    proof (rule Cons.IH)
      fix rs assume "pages = map Extracted rs"
      with Extracted Cons.prems(1) [of "r # rs"] show thesis by simp
    next
      fix rs rest assume "pages = map Extracted rs @ ExtractFails # rest"
      with Extracted Cons.prems(2) [of "r # rs" rest] show thesis by simp
    qed
  qed
qed

lemma out_paths_differ: "out_txt repo_root \<noteq> out_index repo_root"
  by (simp add: out_txt_def out_index_def)

section \<open>A run of \<open>main\<close>\<close>

lemma main_ok:
  "main lower repo_root (Document (map Extracted rs)) fs =
     (let kept = filter (\<lambda>(j, r). strip (or_empty r) \<noteq> []) (List.enumerate 1 rs);
          txt = lstrip (concat (map (\<lambda>(j, r). page_marker j @ normalize_text (or_empty r)) kept)) @ [LF];
          idx = join [LF] (sorted_set (concat (map (\<lambda>(j, r).
                  foldl (index_term lower j (normalize_text (or_empty r))) [] index_terms) kept))) @ [LF]
      in \<lparr>status = Done,
          events = OpenReader # map ExtractText [1..<Suc (length rs)] @
            [WriteText (out_txt repo_root) txt, WriteText (out_index repo_root) idx,
             PrintWrote (out_txt repo_root), PrintWrote (out_index repo_root),
             PrintPagesProcessed (length rs)],
          files = fs(out_txt repo_root \<mapsto> txt, out_index repo_root \<mapsto> idx)\<rparr>)"
  by (simp add: main_def page_loop_ok Let_def del: upt.simps)

lemma main_fails:
  "main lower repo_root (Document (map Extracted rs @ ExtractFails # rest)) fs =
     \<lparr>status = Raised (ExtractError (Suc (length rs))),
      events = OpenReader # map ExtractText [1..<Suc (Suc (length rs))],
      files = fs\<rparr>"
  by (simp add: main_def page_loop_fails del: upt.simps)

lemma kept_sorted:
  "sorted_wrt (<) (map fst (filter P (List.enumerate i rs)))"
proof -
  have "sorted_wrt (\<lambda>a b. fst a < fst b) (List.enumerate i rs)"
    using sorted_wrt_map [of "(<)" fst "List.enumerate i rs"]
    by (simp add: strict_sorted_iff)
  then have "sorted_wrt (\<lambda>a b. fst a < fst b) (filter P (List.enumerate i rs))"
    by (rule sorted_wrt_filter)
  then show ?thesis by (simp add: sorted_wrt_map)
qed

lemmas index_defs = index_terms_def index_term_def Let_def ascii_lower_def find_def slice_def
  slice_bound_def replace_def

lemma or_empty_simps [simp]: "or_empty None = []" "or_empty (Some t) = t"
  by (simp_all add: or_empty_def)

lemma join_Cons: "join sep (x # xs) = x @ concat (map (\<lambda>y. sep @ y) xs)"
  by (induction xs arbitrary: x) simp_all

lemma join_lines:
  "join [LF] L = (case L of [] \<Rightarrow> [] | h # hs \<Rightarrow> h @ concat (map (\<lambda>x. LF # x) hs))"
  by (cases L) (simp_all add: join_Cons)

lemma nonblank_iff: "strip s \<noteq> [] \<longleftrightarrow> \<not> list_all isspace s"
  by (simp add: strip_Nil_iff list_all_iff)

lemma lstrip_chunks:
  "lstrip (concat (map (\<lambda>(j, r). page_marker j @ f r) kept)) =
     drop 2 (concat (map (\<lambda>(j, r). page_marker j @ f r) kept))"
proof (cases kept)
  case Nil
  then show ?thesis by (simp add: lstrip_def)
next
  case (Cons a rest)
  obtain j r where "a = (j, r)" by (cases a)
  with Cons show ?thesis
    by (simp add: lstrip_def page_marker_def ascii_def isspace_def LF_def)
qed

lemma str_nat_decimal:
  "foldl (\<lambda>a d. 10 * a + (d - 48)) 0 (str_nat n) = n \<and> list_all (\<lambda>d. 48 \<le> d \<and> d \<le> 57) (str_nat n)"
proof (induction n rule: str_nat.induct)
  case (1 n)
  show ?case
  proof (cases "n < 10")
    case True
    then show ?thesis by (subst (1 2) str_nat.simps) simp
  next
    case False
    with 1 have ih: "foldl (\<lambda>a d. 10 * a + (d - 48)) 0 (str_nat (n div 10)) = n div 10"
      "list_all (\<lambda>d. 48 \<le> d \<and> d \<le> 57) (str_nat (n div 10))"
      by simp_all
    have "n mod 10 < 10" by simp
    then have "48 + n mod 10 \<le> 57" by linarith
    with False ih show ?thesis
      by (subst (1 2) str_nat.simps) simp
  qed
qed

lemma scenario10_normalized:
  "normalize_text (ascii ''TreeWalker and Condition'') = ascii ''TreeWalker and Condition'' @ [LF]"
  "normalize_text (ascii ''  condition'' @ [CR, LF]) = ascii ''condition'' @ [LF]"
  by (simp_all add: eval_defs)

lemma scenario10_hits:
  "foldl (index_term ascii_lower 2 (ascii ''TreeWalker and Condition'' @ [LF])) [] index_terms =
     [ascii ''Page 2: TreeWalker: TreeWalker and Condition'',
      ascii ''Page 2: Condition: TreeWalker and Condition'']"
  "foldl (index_term ascii_lower 10 (ascii ''condition'' @ [LF])) [] index_terms =
     [ascii ''Page 10: Condition: condition'']"
  by (simp_all add: index_defs eval_defs)

lemma scenario10_kept:
  "filter (\<lambda>(j, r). strip (or_empty r) \<noteq> [])
     (List.enumerate 1 [None, Some (ascii ''TreeWalker and Condition''), Some [], Some [SP, TAB, LF],
        None, Some [], Some [], Some [], Some [], Some (ascii ''  condition'' @ [CR, LF])]) =
   [(2, Some (ascii ''TreeWalker and Condition'')), (10, Some (ascii ''  condition'' @ [CR, LF]))]"
  by (simp add: eval_defs)

lemma scenario10_sorted:
  "sorted_set [ascii ''Page 2: TreeWalker: TreeWalker and Condition'',
      ascii ''Page 2: Condition: TreeWalker and Condition'',
      ascii ''Page 10: Condition: condition''] =
   [ascii ''Page 10: Condition: condition'',
    ascii ''Page 2: Condition: TreeWalker and Condition'',
    ascii ''Page 2: TreeWalker: TreeWalker and Condition'']"
  by (simp add: sorted_set_def ascii_def list_le_def list_less_def)

lemma scenario10_files:
  "files (main ascii_lower repo_root (Document (map Extracted
      [None, Some (ascii ''TreeWalker and Condition''), Some [], Some [SP, TAB, LF],
       None, Some [], Some [], Some [], Some [], Some (ascii ''  condition'' @ [CR, LF])])) fs) =
   fs(out_txt repo_root \<mapsto>
        ascii ''=== Page 2 ==='' @ [LF, LF] @ ascii ''TreeWalker and Condition'' @ [LF, LF, LF] @
        ascii ''=== Page 10 ==='' @ [LF, LF] @ ascii ''condition'' @ [LF, LF],
      out_index repo_root \<mapsto>
        ascii ''Page 10: Condition: condition'' @ [LF] @
        ascii ''Page 2: Condition: TreeWalker and Condition'' @ [LF] @
        ascii ''Page 2: TreeWalker: TreeWalker and Condition'' @ [LF])"
proof -
  have content: "lstrip (page_marker 2 @ ascii ''TreeWalker and Condition'' @ [LF] @
      page_marker 10 @ ascii ''condition'' @ [LF]) =
    ascii ''=== Page 2 ==='' @ [LF, LF] @ ascii ''TreeWalker and Condition'' @ [LF, LF, LF] @
        ascii ''=== Page 10 ==='' @ [LF, LF] @ ascii ''condition'' @ [LF]"
    by (simp add: page_marker_def lstrip_def ascii_def isspace_def LF_def)
  show ?thesis
    unfolding main_ok scenario10_kept
    using content
    by (simp add: Let_def scenario10_normalized scenario10_hits scenario10_sorted)
qed

lemma main_files:
  "files (main lower repo_root (Document (map Extracted rs)) fs) =
     fs(out_txt repo_root \<mapsto>
          drop 2 (concat (map (\<lambda>(j, r). page_marker j @ normalize_text (or_empty r))
            (filter (\<lambda>(j, r). \<not> list_all isspace (or_empty r)) (List.enumerate 1 rs)))) @ [LF],
        out_index repo_root \<mapsto>
          join [LF] (sorted_set (concat (map (\<lambda>(j, r).
              foldl (index_term lower j (normalize_text (or_empty r))) [] index_terms)
            (filter (\<lambda>(j, r). \<not> list_all isspace (or_empty r)) (List.enumerate 1 rs))))) @ [LF])"
  by (simp add: main_ok Let_def lstrip_chunks nonblank_iff del: upt.simps)

text \<open>
  Claim C7: when every page is extracted, the full-text file that \<open>main\<close> writes holds
  the normalized texts of the pages that are not blank (a page for which \<open>extract_text\<close>
  returns \<open>None\<close> counts as the empty text), each behind its page-boundary marker
  \<open>"\n\n=== Page {j} ===\n\n"\<close> with \<open>j\<close> the ordinal of the page in decimal, concatenated
  in ascending page order (the pages are numbered from 1 in document order), without the
  white space at the start of the whole concatenation, which is the two line feeds of the
  first marker, and with one line feed appended. In the run on a document of ten pages of
  which the second and the tenth are not blank, the file is
  \<open>"=== Page 2 ===\n\nTreeWalker and Condition\n\n\n=== Page 10 ===\n\ncondition\n\n"\<close>.
\<close>

theorem full_text_output:
  "files (main lower repo_root (Document (map Extracted rs)) fs) (out_txt repo_root) =
     Some (drop 2 (concat (map (\<lambda>(j, r). [LF, LF] @ ascii ''=== Page '' @ str_nat j @ ascii '' ==='' @
             [LF, LF] @ normalize_text (case r of None \<Rightarrow> [] | Some t \<Rightarrow> t))
        (filter (\<lambda>(j, r). \<not> list_all isspace (case r of None \<Rightarrow> [] | Some t \<Rightarrow> t))
           (List.enumerate 1 rs)))) @ [LF]) \<and>
   sorted_wrt (<) (map fst (filter (\<lambda>(j, r). \<not> list_all isspace (case r of None \<Rightarrow> [] | Some t \<Rightarrow> t))
     (List.enumerate 1 rs))) \<and>
   foldl (\<lambda>a d. 10 * a + (d - 48)) 0 (str_nat j) = j \<and>
   list_all (\<lambda>d. 48 \<le> d \<and> d \<le> 57) (str_nat j) \<and>
   files (main ascii_lower repo_root (Document (map Extracted
      [None, Some (ascii ''TreeWalker and Condition''), Some [], Some [SP, TAB, LF],
       None, Some [], Some [], Some [], Some [], Some (ascii ''  condition'' @ [CR, LF])])) fs)
     (out_txt repo_root) =
     Some (ascii ''=== Page 2 ==='' @ [LF, LF] @ ascii ''TreeWalker and Condition'' @ [LF, LF, LF] @
        ascii ''=== Page 10 ==='' @ [LF, LF] @ ascii ''condition'' @ [LF, LF])"
proof -
  have "files (main lower repo_root (Document (map Extracted rs)) fs) (out_txt repo_root) =
     Some (drop 2 (concat (map (\<lambda>(j, r). page_marker j @ normalize_text (or_empty r))
        (filter (\<lambda>(j, r). \<not> list_all isspace (or_empty r)) (List.enumerate 1 rs)))) @ [LF])"
    by (simp add: main_files out_paths_differ)
  then have a: "files (main lower repo_root (Document (map Extracted rs)) fs) (out_txt repo_root) =
     Some (drop 2 (concat (map (\<lambda>(j, r). [LF, LF] @ ascii ''=== Page '' @ str_nat j @ ascii '' ==='' @
             [LF, LF] @ normalize_text (case r of None \<Rightarrow> [] | Some t \<Rightarrow> t))
        (filter (\<lambda>(j, r). \<not> list_all isspace (case r of None \<Rightarrow> [] | Some t \<Rightarrow> t))
           (List.enumerate 1 rs)))) @ [LF])"
    by (simp only: page_marker_def or_empty_def append_assoc)
  have b: "sorted_wrt (<) (map fst (filter (\<lambda>(j, r). \<not> list_all isspace (case r of None \<Rightarrow> [] | Some t \<Rightarrow> t))
     (List.enumerate 1 rs)))"
    by (rule kept_sorted)
  have c: "files (main ascii_lower repo_root (Document (map Extracted
      [None, Some (ascii ''TreeWalker and Condition''), Some [], Some [SP, TAB, LF],
       None, Some [], Some [], Some [], Some [], Some (ascii ''  condition'' @ [CR, LF])])) fs)
     (out_txt repo_root) =
     Some (ascii ''=== Page 2 ==='' @ [LF, LF] @ ascii ''TreeWalker and Condition'' @ [LF, LF, LF] @
        ascii ''=== Page 10 ==='' @ [LF, LF] @ ascii ''condition'' @ [LF, LF])"
    by (simp only: scenario10_files) (simp add: out_paths_differ)
  from a b c str_nat_decimal [of j] show ?thesis by (intro conjI) simp_all
qed

lemma sorted_set_example:
  "sorted_set [ascii ''Page 2: Condition: x'', ascii ''Page 10: Condition: x'', ascii ''Page 2: Condition: x''] =
     [ascii ''Page 10: Condition: x'', ascii ''Page 2: Condition: x'']"
  by (simp add: sorted_set_def ascii_def list_le_def list_less_def)

lemma sorted_set_props:
  "set (sorted_set xs) = set xs"
  "sorted_wrt (\<lambda>a b. (a, b) \<in> lexord {(x, y). x < y}) (sorted_set xs)"
proof -
  show "set (sorted_set xs) = set xs" by (simp add: sorted_set_def)
  have "sorted_wrt (<) (sorted_set xs)"
    by (simp add: sorted_set_def strict_sorted_iff)
  then show "sorted_wrt (\<lambda>a b. (a, b) \<in> lexord {(x, y). x < y}) (sorted_set xs)"
    by (simp add: list_less_def [abs_def])
qed

text \<open>
  Claim C6: when every page is extracted, the index file that \<open>main\<close> writes is a list
  \<open>L\<close> of strings joined with single line feeds (the first string, then every other one
  behind one line feed; nothing for the empty list), with one line feed appended, where
  \<open>L\<close> holds exactly the hit strings of the run, each once, in strictly ascending
  lexicographic order of their code points (a list in strictly ascending order has no
  duplicates, and there is only one such list for a given set of strings). The order is
  that of the rendered strings and not of page numbers or of the term list:
  \<open>"Page 10: \<dots>"\<close> comes before \<open>"Page 2: \<dots>"\<close>. In the run on a document of ten pages
  with the terms \<open>TreeWalker\<close> and \<open>Condition\<close> on the second page and \<open>condition\<close> on
  the tenth, the file has the three lines \<open>"Page 10: Condition: condition"\<close>,
  \<open>"Page 2: Condition: TreeWalker and Condition"\<close> and
  \<open>"Page 2: TreeWalker: TreeWalker and Condition"\<close>, each ended by a line feed.
\<close>

theorem index_output:
  "(\<exists>L. files (main lower repo_root (Document (map Extracted rs)) fs) (out_index repo_root) =
        Some ((case L of [] \<Rightarrow> [] | h # hs \<Rightarrow> h @ concat (map (\<lambda>x. LF # x) hs)) @ [LF]) \<and>
      set L = set (concat (map (\<lambda>(j, r).
          foldl (index_term lower j (normalize_text (case r of None \<Rightarrow> [] | Some t \<Rightarrow> t))) [] index_terms)
        (filter (\<lambda>(j, r). \<not> list_all isspace (case r of None \<Rightarrow> [] | Some t \<Rightarrow> t))
           (List.enumerate 1 rs)))) \<and>
      sorted_wrt (\<lambda>a b. (a, b) \<in> lexord {(x, y). x < y}) L) \<and>
   sorted_set [ascii ''Page 2: Condition: x'', ascii ''Page 10: Condition: x'', ascii ''Page 2: Condition: x''] =
     [ascii ''Page 10: Condition: x'', ascii ''Page 2: Condition: x''] \<and>
   files (main ascii_lower repo_root (Document (map Extracted
      [None, Some (ascii ''TreeWalker and Condition''), Some [], Some [SP, TAB, LF],
       None, Some [], Some [], Some [], Some [], Some (ascii ''  condition'' @ [CR, LF])])) fs)
     (out_index repo_root) =
     Some (ascii ''Page 10: Condition: condition'' @ [LF] @
        ascii ''Page 2: Condition: TreeWalker and Condition'' @ [LF] @
        ascii ''Page 2: TreeWalker: TreeWalker and Condition'' @ [LF])"
proof -
  let ?hits = "concat (map (\<lambda>(j, r).
          foldl (index_term lower j (normalize_text (or_empty r))) [] index_terms)
        (filter (\<lambda>(j, r). \<not> list_all isspace (or_empty r)) (List.enumerate 1 rs)))"
  have "files (main lower repo_root (Document (map Extracted rs)) fs) (out_index repo_root) =
      Some (join [LF] (sorted_set ?hits) @ [LF])"
    by (simp add: main_files)
  then have "files (main lower repo_root (Document (map Extracted rs)) fs) (out_index repo_root) =
      Some ((case sorted_set ?hits of [] \<Rightarrow> [] | h # hs \<Rightarrow> h @ concat (map (\<lambda>x. LF # x) hs)) @ [LF])"
    by (simp only: join_lines)
  moreover note sorted_set_props [of ?hits]
  ultimately have "\<exists>L. files (main lower repo_root (Document (map Extracted rs)) fs) (out_index repo_root) =
        Some ((case L of [] \<Rightarrow> [] | h # hs \<Rightarrow> h @ concat (map (\<lambda>x. LF # x) hs)) @ [LF]) \<and>
      set L = set ?hits \<and>
      sorted_wrt (\<lambda>a b. (a, b) \<in> lexord {(x, y). x < y}) L"
    by (intro exI [of _ "sorted_set ?hits"] conjI)
  then have a: "\<exists>L. files (main lower repo_root (Document (map Extracted rs)) fs) (out_index repo_root) =
        Some ((case L of [] \<Rightarrow> [] | h # hs \<Rightarrow> h @ concat (map (\<lambda>x. LF # x) hs)) @ [LF]) \<and>
      set L = set (concat (map (\<lambda>(j, r).
          foldl (index_term lower j (normalize_text (case r of None \<Rightarrow> [] | Some t \<Rightarrow> t))) [] index_terms)
        (filter (\<lambda>(j, r). \<not> list_all isspace (case r of None \<Rightarrow> [] | Some t \<Rightarrow> t))
           (List.enumerate 1 rs)))) \<and>
      sorted_wrt (\<lambda>a b. (a, b) \<in> lexord {(x, y). x < y}) L"
    by (simp only: or_empty_def)
  have c: "files (main ascii_lower repo_root (Document (map Extracted
      [None, Some (ascii ''TreeWalker and Condition''), Some [], Some [SP, TAB, LF],
       None, Some [], Some [], Some [], Some [], Some (ascii ''  condition'' @ [CR, LF])])) fs)
     (out_index repo_root) =
     Some (ascii ''Page 10: Condition: condition'' @ [LF] @
        ascii ''Page 2: Condition: TreeWalker and Condition'' @ [LF] @
        ascii ''Page 2: TreeWalker: TreeWalker and Condition'' @ [LF])"
    by (simp only: scenario10_files) simp
  from a sorted_set_example c show ?thesis by (intro conjI)
qed

lemma kept_blank:
  assumes "\<forall>r\<in>set rs. \<forall>c\<in>set (or_empty r). isspace c"
  shows "filter (\<lambda>(j, r). strip (or_empty r) \<noteq> []) (List.enumerate i rs) = []"
proof -
  have "strip (or_empty r) = []" if "(j, r) \<in> set (List.enumerate i rs)" for j r
  proof -
    from that have "r \<in> set rs"
      by (auto simp: enumerate_eq_zip dest: set_zip_rightD)
    with assms show ?thesis by (simp add: strip_Nil_iff)
  qed
  then show ?thesis by (auto simp: filter_empty_conv)
qed

lemma main_blank:
  assumes "\<forall>r\<in>set rs. \<forall>c\<in>set (or_empty r). isspace c"
  shows "status (main lower repo_root (Document (map Extracted rs)) fs) = Done"
    and "files (main lower repo_root (Document (map Extracted rs)) fs) (out_txt repo_root) = Some [LF]"
    and "files (main lower repo_root (Document (map Extracted rs)) fs) (out_index repo_root) = Some [LF]"
  by (simp_all add: main_ok Let_def kept_blank [OF assms] out_paths_differ lstrip_def sorted_set_def
      del: upt.simps)

text \<open>
  Claim C9: if every page extracts and its text is empty or holds white space only (a
  document without pages included), the run succeeds and both output files are written
  with exactly one line feed as their content.
\<close>

theorem blank_document:
  "((\<forall>r\<in>set rs. \<forall>c\<in>set (or_empty r). isspace c) \<longrightarrow>
      status (main lower repo_root (Document (map Extracted rs)) fs) = Done \<and>
      files (main lower repo_root (Document (map Extracted rs)) fs) (out_txt repo_root) = Some [LF] \<and>
      files (main lower repo_root (Document (map Extracted rs)) fs) (out_index repo_root) = Some [LF]) \<and>
   status (main lower repo_root (Document []) fs) = Done \<and>
   files (main lower repo_root (Document []) fs) (out_txt repo_root) = Some [LF] \<and>
   files (main lower repo_root (Document []) fs) (out_index repo_root) = Some [LF]"
  using main_blank [of rs lower repo_root fs] main_blank [of "[]" lower repo_root fs]
  by simp

theorem blank_document_witness:
  "status (main ascii_lower [''repo''] (Document (map Extracted [None, Some [SP, LF, TAB], Some []])) Map.empty) = Done \<and>
   files (main ascii_lower [''repo''] (Document (map Extracted [None, Some [SP, LF, TAB], Some []])) Map.empty)
     (out_txt [''repo'']) = Some [LF] \<and>
   files (main ascii_lower [''repo''] (Document (map Extracted [None, Some [SP, LF, TAB], Some []])) Map.empty)
     (out_index [''repo'']) = Some [LF]"
  using blank_document [of "[None, Some [SP, LF, TAB], Some []]" ascii_lower "[''repo'']" Map.empty]
  by (simp add: or_empty_def)

lemma no_write_in_extracts: "WriteText p c \<notin> set (OpenReader # map ExtractText ns)"
  by auto

text \<open>
  Claim C8: if the PDF does not exist at the hard-coded path, \<open>main\<close> raises
  \<open>SystemExit\<close>, the process ends with a status that is not zero, and nothing has
  happened before that: no reader was opened, no page parsed, and the files are as they
  were. More generally no output file is written until both buffers are assembled from
  all pages: a run that does not succeed (the reader cannot open the file, or
  \<open>extract_text\<close> raises on some page) ends with a status that is not zero, leaves every
  file as it was and writes nothing; and in a run that succeeds the effects are, in this
  order, the reader opened, \<open>extract_text\<close> called on every page from the first to the
  last, and only then the two writes, followed by the status lines.
\<close>

theorem no_partial_output:
  "main lower repo_root NoFile fs =
     \<lparr>status = Raised (SystemExit (ascii ''PDF not found: '' @ pdf_path)), events = [], files = fs\<rparr> \<and>
   exit_code (status (main lower repo_root NoFile fs)) \<noteq> 0 \<and>
   (status (main lower repo_root pdf fs) \<noteq> Done \<longrightarrow>
      exit_code (status (main lower repo_root pdf fs)) \<noteq> 0 \<and>
      files (main lower repo_root pdf fs) = fs \<and>
      (\<forall>p c. WriteText p c \<notin> set (events (main lower repo_root pdf fs)))) \<and>
   (status (main lower repo_root pdf fs) = Done \<longrightarrow>
      (\<exists>pages txt idx. pdf = Document pages \<and>
         events (main lower repo_root pdf fs) =
           OpenReader # map ExtractText [1..<Suc (length pages)] @
           [WriteText (out_txt repo_root) txt, WriteText (out_index repo_root) idx,
            PrintWrote (out_txt repo_root), PrintWrote (out_index repo_root),
            PrintPagesProcessed (length pages)]))"
proof -
  have a: "main lower repo_root NoFile fs =
     \<lparr>status = Raised (SystemExit (ascii ''PDF not found: '' @ pdf_path)), events = [], files = fs\<rparr>"
    by (simp add: main_def)
  have b: "exit_code (status (main lower repo_root NoFile fs)) \<noteq> 0"
    by (simp add: main_def)
  have c: "exit_code (status (main lower repo_root pdf fs)) \<noteq> 0 \<and>
      files (main lower repo_root pdf fs) = fs \<and>
      (\<forall>p c. WriteText p c \<notin> set (events (main lower repo_root pdf fs)))"
    if "status (main lower repo_root pdf fs) \<noteq> Done"
  proof (cases pdf)
    case NoFile
    then show ?thesis by (simp add: main_def)
  next
    case Unreadable
    then show ?thesis by (simp add: main_def)
  next
    case (Document pages)
    show ?thesis
    proof (cases pages rule: pages_cases)
      case (1 rs)
      with Document that show ?thesis by (simp add: main_ok Let_def del: upt.simps)
    next
      case (2 rs rest)
      with Document show ?thesis
        by (simp add: main_fails no_write_in_extracts del: upt.simps) auto
    qed
  qed
  have d: "\<exists>pages txt idx. pdf = Document pages \<and>
         events (main lower repo_root pdf fs) =
           OpenReader # map ExtractText [1..<Suc (length pages)] @
           [WriteText (out_txt repo_root) txt, WriteText (out_index repo_root) idx,
            PrintWrote (out_txt repo_root), PrintWrote (out_index repo_root),
            PrintPagesProcessed (length pages)]"
    if "status (main lower repo_root pdf fs) = Done"
  proof (cases pdf)
    case NoFile
    with that show ?thesis by (simp add: main_def)
  next
    case Unreadable
    with that show ?thesis by (simp add: main_def)
  next
    case (Document pages)
    show ?thesis
    proof (cases pages rule: pages_cases)
      case (1 rs)
      with Document show ?thesis by (simp add: main_ok Let_def del: upt.simps)
    next
      case (2 rs rest)
      with Document that show ?thesis by (simp add: main_fails del: upt.simps)
    qed
  qed
  from a b c d show ?thesis by blast
qed

theorem no_partial_output_witness:
  "status (main ascii_lower [''repo''] Unreadable Map.empty) \<noteq> Done \<and>
   exit_code (status (main ascii_lower [''repo''] Unreadable Map.empty)) \<noteq> 0 \<and>
   files (main ascii_lower [''repo''] Unreadable Map.empty) = Map.empty \<and>
   status (main ascii_lower [''repo''] (Document [Extracted (Some (ascii ''x''))]) Map.empty) = Done \<and>
   (\<exists>txt idx. events (main ascii_lower [''repo''] (Document [Extracted (Some (ascii ''x''))]) Map.empty) =
      [OpenReader, ExtractText 1,
       WriteText (out_txt [''repo'']) txt, WriteText (out_index [''repo'']) idx,
       PrintWrote (out_txt [''repo'']), PrintWrote (out_index [''repo'']),
       PrintPagesProcessed 1])"
proof -
  have 1: "status (main ascii_lower [''repo''] Unreadable Map.empty) \<noteq> Done"
    by (simp add: main_def)
  have 2: "status (main ascii_lower [''repo''] (Document [Extracted (Some (ascii ''x''))]) Map.empty) = Done"
    using main_ok [of ascii_lower "[''repo'']" "[Some (ascii ''x'')]" Map.empty]
    by (simp add: Let_def)
  show ?thesis
    using 1 2
      no_partial_output [of ascii_lower "[''repo'']" Map.empty Unreadable]
      no_partial_output [of ascii_lower "[''repo'']" Map.empty "Document [Extracted (Some (ascii ''x''))]"]
    by auto
qed

section \<open>Blank pages\<close>

lemma scenario3_normalized:
  "normalize_text (ascii ''hello AutomationElement world'') = ascii ''hello AutomationElement world'' @ [LF]"
  "normalize_text (ascii ''  nothing  of interest  '') = ascii ''nothing of interest'' @ [LF]"
  by (simp_all add: eval_defs)

lemma scenario3_hits:
  "foldl (index_term ascii_lower (Suc 0) (ascii ''hello AutomationElement world'' @ [LF])) [] index_terms =
     [ascii ''Page 1: AutomationElement: hello AutomationElement world'']"
  "foldl (index_term ascii_lower 3 (ascii ''nothing of interest'' @ [LF])) [] index_terms = []"
  by (simp_all add: index_defs eval_defs)

lemma scenario3_kept:
  "filter (\<lambda>(j, r). strip (or_empty r) \<noteq> [])
     (List.enumerate (Suc 0) [Some (ascii ''hello AutomationElement world''), Some [],
        Some (ascii ''  nothing  of interest  '')]) =
   [(Suc 0, Some (ascii ''hello AutomationElement world'')), (3, Some (ascii ''  nothing  of interest  ''))]"
  by (simp add: eval_defs)

lemma scenario3_loop:
  "page_loop ascii_lower 1
     (map Extracted [Some (ascii ''hello AutomationElement world''), Some [],
        Some (ascii ''  nothing  of interest  '')])
     \<lparr>chunks = [], index_hits = [], logged = [OpenReader]\<rparr> =
   Inr \<lparr>chunks = [page_marker 1 @ ascii ''hello AutomationElement world'' @ [LF],
                  page_marker 3 @ ascii ''nothing of interest'' @ [LF]],
        index_hits = [ascii ''Page 1: AutomationElement: hello AutomationElement world''],
        logged = [OpenReader, ExtractText 1, ExtractText 2, ExtractText 3]\<rparr>"
  unfolding page_loop_ok One_nat_def scenario3_kept
  by (simp add: scenario3_normalized scenario3_hits upt_rec)

lemma scenario3_files:
  "files (main ascii_lower repo_root (Document (map Extracted
      [Some (ascii ''hello AutomationElement world''), Some [],
       Some (ascii ''  nothing  of interest  '')])) fs) =
   fs(out_txt repo_root \<mapsto>
        ascii ''=== Page 1 ==='' @ [LF, LF] @ ascii ''hello AutomationElement world'' @ [LF, LF, LF] @
        ascii ''=== Page 3 ==='' @ [LF, LF] @ ascii ''nothing of interest'' @ [LF, LF],
      out_index repo_root \<mapsto>
        ascii ''Page 1: AutomationElement: hello AutomationElement world'' @ [LF])"
proof -
  have content: "lstrip (page_marker (Suc 0) @ ascii ''hello AutomationElement world'' @ [LF] @
      page_marker 3 @ ascii ''nothing of interest'' @ [LF]) =
    ascii ''=== Page 1 ==='' @ [LF, LF] @ ascii ''hello AutomationElement world'' @ [LF, LF, LF] @
        ascii ''=== Page 3 ==='' @ [LF, LF] @ ascii ''nothing of interest'' @ [LF]"
    by (simp add: page_marker_def lstrip_def ascii_def isspace_def LF_def)
  show ?thesis
    unfolding main_ok One_nat_def scenario3_kept
    using content
    by (simp add: Let_def scenario3_normalized scenario3_hits sorted_set_def)
qed

lemma page_loop_blank:
  "strip (or_empty r) = [] \<Longrightarrow>
     page_loop lower i (Extracted r # pages) b =
       page_loop lower (Suc i) pages (b\<lparr>logged := logged b @ [ExtractText i]\<rparr>)"
  by (simp add: page_step_blank)


text \<open>
  Claim C5: a page whose extracted text is empty or holds white space only (or for which
  \<open>extract_text\<close> returns \<open>None\<close>) leaves both buffers as they were, so it contributes
  no chunk, hence no page-boundary marker, and no index hit, and the loop goes on with the
  next page and the next ordinal. In the scenario of three pages with the texts
  \<open>"hello AutomationElement world"\<close>, \<open>""\<close> and \<open>"  nothing  of interest  "\<close> the loop
  leaves two chunks, with the markers of pages 1 and 3, and exactly one hit, for page 1
  and the term \<open>AutomationElement\<close>; page 3 has no hit; and the two files that \<open>main\<close>
  writes hold the markers of pages 1 and 3 only and the one hit.
\<close>

theorem blank_pages_skipped:
  "page_step lower i (Extracted None) b = Inr b \<and>
   page_loop lower i (Extracted None # pages) b =
     page_loop lower (Suc i) pages (b\<lparr>logged := logged b @ [ExtractText i]\<rparr>) \<and>
   ((\<forall>c\<in>set t. isspace c) \<longrightarrow>
      page_step lower i (Extracted (Some t)) b = Inr b \<and>
      page_loop lower i (Extracted (Some t) # pages) b =
        page_loop lower (Suc i) pages (b\<lparr>logged := logged b @ [ExtractText i]\<rparr>)) \<and>
   page_loop ascii_lower 1
     [Extracted (Some (ascii ''hello AutomationElement world'')), Extracted (Some []),
      Extracted (Some (ascii ''  nothing  of interest  ''))]
     \<lparr>chunks = [], index_hits = [], logged = [OpenReader]\<rparr> =
   Inr \<lparr>chunks = [[LF, LF] @ ascii ''=== Page 1 ==='' @ [LF, LF] @ ascii ''hello AutomationElement world'' @ [LF],
                  [LF, LF] @ ascii ''=== Page 3 ==='' @ [LF, LF] @ ascii ''nothing of interest'' @ [LF]],
        index_hits = [ascii ''Page 1: AutomationElement: hello AutomationElement world''],
        logged = [OpenReader, ExtractText 1, ExtractText 2, ExtractText 3]\<rparr> \<and>
   foldl (index_term ascii_lower 3 (normalize_text (ascii ''  nothing  of interest  ''))) [] index_terms = [] \<and>
   files (main ascii_lower repo_root
       (Document [Extracted (Some (ascii ''hello AutomationElement world'')), Extracted (Some []),
          Extracted (Some (ascii ''  nothing  of interest  ''))]) fs) (out_txt repo_root) =
     Some (ascii ''=== Page 1 ==='' @ [LF, LF] @ ascii ''hello AutomationElement world'' @ [LF, LF, LF] @
       ascii ''=== Page 3 ==='' @ [LF, LF] @ ascii ''nothing of interest'' @ [LF, LF]) \<and>
   files (main ascii_lower repo_root
       (Document [Extracted (Some (ascii ''hello AutomationElement world'')), Extracted (Some []),
          Extracted (Some (ascii ''  nothing  of interest  ''))]) fs) (out_index repo_root) =
     Some (ascii ''Page 1: AutomationElement: hello AutomationElement world'' @ [LF])"
proof -
  let ?rs = "[Some (ascii ''hello AutomationElement world''), Some [],
      Some (ascii ''  nothing  of interest  '')]"
  have pages: "[Extracted (Some (ascii ''hello AutomationElement world'')), Extracted (Some []),
      Extracted (Some (ascii ''  nothing  of interest  ''))] = map Extracted ?rs"
    by simp
  have a: "page_step lower i (Extracted None) b = Inr b"
    by (simp add: page_step_blank strip_def lstrip_def rstrip_def)
  have a': "page_loop lower i (Extracted None # pages) b =
     page_loop lower (Suc i) pages (b\<lparr>logged := logged b @ [ExtractText i]\<rparr>)"
    by (rule page_loop_blank) (simp add: strip_def lstrip_def rstrip_def)
  have b: "(\<forall>c\<in>set t. isspace c) \<longrightarrow>
      page_step lower i (Extracted (Some t)) b = Inr b \<and>
      page_loop lower i (Extracted (Some t) # pages) b =
        page_loop lower (Suc i) pages (b\<lparr>logged := logged b @ [ExtractText i]\<rparr>)"
    by (simp add: page_step_blank strip_Nil_iff)
  have c: "page_loop ascii_lower 1 (map Extracted ?rs) \<lparr>chunks = [], index_hits = [], logged = [OpenReader]\<rparr> =
   Inr \<lparr>chunks = [[LF, LF] @ ascii ''=== Page 1 ==='' @ [LF, LF] @ ascii ''hello AutomationElement world'' @ [LF],
                  [LF, LF] @ ascii ''=== Page 3 ==='' @ [LF, LF] @ ascii ''nothing of interest'' @ [LF]],
        index_hits = [ascii ''Page 1: AutomationElement: hello AutomationElement world''],
        logged = [OpenReader, ExtractText 1, ExtractText 2, ExtractText 3]\<rparr>"
    by (simp only: scenario3_loop) (simp add: page_marker_def ascii_def)
  have d: "foldl (index_term ascii_lower 3 (normalize_text (ascii ''  nothing  of interest  ''))) [] index_terms = []"
    by (simp only: scenario3_normalized scenario3_hits)
  have e: "files (main ascii_lower repo_root (Document (map Extracted ?rs)) fs) (out_txt repo_root) =
     Some (ascii ''=== Page 1 ==='' @ [LF, LF] @ ascii ''hello AutomationElement world'' @ [LF, LF, LF] @
       ascii ''=== Page 3 ==='' @ [LF, LF] @ ascii ''nothing of interest'' @ [LF, LF])"
    by (simp only: scenario3_files) (simp add: out_paths_differ)
  have f: "files (main ascii_lower repo_root (Document (map Extracted ?rs)) fs) (out_index repo_root) =
     Some (ascii ''Page 1: AutomationElement: hello AutomationElement world'' @ [LF])"
    by (simp only: scenario3_files) simp
  from a a' b c d e f show ?thesis
    unfolding pages by (intro conjI)
qed

theorem blank_pages_skipped_witness:
  "page_step ascii_lower 2 (Extracted (Some [SP, TAB, LF]))
     \<lparr>chunks = [ascii ''x''], index_hits = [ascii ''y''], logged = [OpenReader]\<rparr> =
     Inr \<lparr>chunks = [ascii ''x''], index_hits = [ascii ''y''], logged = [OpenReader]\<rparr> \<and>
   page_loop ascii_lower 2 [Extracted (Some [SP, TAB, LF])]
     \<lparr>chunks = [ascii ''x''], index_hits = [ascii ''y''], logged = [OpenReader]\<rparr> =
     Inr \<lparr>chunks = [ascii ''x''], index_hits = [ascii ''y''], logged = [OpenReader, ExtractText 2]\<rparr>"
  using blank_pages_skipped [of ascii_lower 2 "\<lparr>chunks = [ascii ''x''], index_hits = [ascii ''y''], logged = [OpenReader]\<rparr>"
      "[]" "[SP, TAB, LF]" "[]" Map.empty]
  by simp

section \<open>The term list\<close>

text \<open>
  Claim C3, as the code has it: the fixed term list that the indexer searches holds
  exactly 25 literal terms.
\<close>

theorem index_terms_count: "length index_terms = 25"
  by (simp add: index_terms_def)

text \<open>The list does not hold 27 terms, the number the specification gives.\<close>

theorem index_terms_count_not_27: "length index_terms \<noteq> 27"
  by (simp add: index_terms_def)

end
